theory Spec2Isabelle
  imports Main
begin

chapter \<open>The model\<close>

section \<open>JavaScript strings\<close>

text \<open>
  A JavaScript string is a sequence of UTF-16 code units; a code unit is modelled as a
  natural number. \<open>js\<close> turns a literal into such a sequence and \<open>cu\<close> a character
  into its code unit.
\<close>

type_synonym jstring = "nat list"

abbreviation js :: "string \<Rightarrow> jstring" where
  "js s \<equiv> map of_char s"

abbreviation cu :: "char \<Rightarrow> nat" where
  "cu c \<equiv> of_char c"


section \<open>Insertion-ordered sets of positions\<close>

text \<open>
  The matchers of \<^verbatim>\<open>dtd_validator.ts\<close> and \<^verbatim>\<open>xsd_validator.ts\<close> keep
  positions in a JavaScript \<^verbatim>\<open>Set<number>\<close>, which iterates in insertion
  order and ignores a second \<^verbatim>\<open>add\<close> of the same number. It is modelled as a
  list without repetitions, new members appended at the end.
\<close>

definition set_add :: "nat list \<Rightarrow> nat \<Rightarrow> nat list" where
  "set_add xs e = (if e \<in> set xs then xs else xs @ [e])"

definition set_add_all :: "nat list \<Rightarrow> nat list \<Rightarrow> nat list" where
  "set_add_all xs es = fold (\<lambda>e acc. set_add acc e) es xs"

text \<open>
  \<^verbatim>\<open>for (const p of current) for (const e of onceEnds(p)) next.add(e)\<close>:
  the inner call may update the memo table, which is threaded through as \<open>m\<close>.
\<close>

fun step_positions ::
  "(nat \<Rightarrow> 'm \<Rightarrow> nat list \<times> 'm) \<Rightarrow> nat list \<Rightarrow> nat list \<Rightarrow> 'm \<Rightarrow> nat list \<times> 'm" where
  "step_positions once [] nxt m = (nxt, m)"
| "step_positions once (p # ps) nxt m =
     (case once p m of (es, m') \<Rightarrow> step_positions once ps (set_add_all nxt es) m')"

text \<open>
  The loop of required occurrences: \<open>None\<close> is the early
  \<^verbatim>\<open>memo.set(key, []); return []\<close> taken when an iteration reaches no position.
\<close>

fun required_loop ::
  "(nat \<Rightarrow> 'm \<Rightarrow> nat list \<times> 'm) \<Rightarrow> nat \<Rightarrow> nat list \<Rightarrow> 'm \<Rightarrow> nat list option \<times> 'm" where
  "required_loop once 0 current m = (Some current, m)"
| "required_loop once (Suc k) current m =
     (case step_positions once current [] m of
        (nxt, m') \<Rightarrow> if nxt = [] then (None, m') else required_loop once k nxt m')"

text \<open>
  The loop of optional extra occurrences, with its \<^verbatim>\<open>break\<close> when an iteration
  is empty or reaches no position outside \<^verbatim>\<open>prev\<close>.
\<close>

fun optional_loop ::
  "(nat \<Rightarrow> 'm \<Rightarrow> nat list \<times> 'm) \<Rightarrow> nat \<Rightarrow> nat list \<Rightarrow> nat list \<Rightarrow> 'm \<Rightarrow> nat list \<times> 'm" where
  "optional_loop once 0 prev results m = (results, m)"
| "optional_loop once (Suc k) prev results m =
     (case step_positions once prev [] m of
        (nxt, m') \<Rightarrow>
          let progressed = (\<exists>e \<in> set nxt. e \<notin> set prev);
              results' = set_add_all results nxt
          in if nxt = [] \<or> \<not> progressed then (results', m')
             else optional_loop once k nxt results' m')"

text \<open>The loop over the items of a sequence, with its \<^verbatim>\<open>break\<close> on an empty set.\<close>

fun seq_loop ::
  "('n \<Rightarrow> nat \<Rightarrow> 'm \<Rightarrow> nat list \<times> 'm) \<Rightarrow> 'n list \<Rightarrow> nat list \<Rightarrow> 'm \<Rightarrow> nat list \<times> 'm" where
  "seq_loop f [] positions m = (positions, m)"
| "seq_loop f (it # its) positions m =
     (case step_positions (f it) positions [] m of
        (nxt, m') \<Rightarrow> if nxt = [] then (nxt, m') else seq_loop f its nxt m')"

text \<open>The loop over the alternatives of a choice.\<close>

fun choice_loop ::
  "('n \<Rightarrow> 'm \<Rightarrow> nat list \<times> 'm) \<Rightarrow> 'n list \<Rightarrow> nat list \<Rightarrow> 'm \<Rightarrow> nat list \<times> 'm" where
  "choice_loop f [] out m = (out, m)"
| "choice_loop f (it # its) out m =
     (case f it m of (es, m') \<Rightarrow> choice_loop f its (set_add_all out es) m')"

lemma seq_loop_cong [fundef_cong]:
  assumes "items = items'" "positions = positions'" "m = m'"
    and "\<And>it p s. it \<in> set items' \<Longrightarrow> f it p s = g it p s"
  shows "seq_loop f items positions m = seq_loop g items' positions' m'"
proof -
  have step: "step_positions (f it) ps nxt s = step_positions (g it) ps nxt s"
    if "it \<in> set items'" for it ps nxt s
    using that assms(4) by (induction ps arbitrary: nxt s) (auto split: prod.splits)
  have "seq_loop f its ps s = seq_loop g its ps s" if "set its \<subseteq> set items'" for its ps s
    using that by (induction its arbitrary: ps s) (auto simp: step split: prod.splits)
  then show ?thesis using assms(1-3) by simp
qed

lemma choice_loop_cong [fundef_cong]:
  assumes "items = items'" "out = out'" "m = m'"
    and "\<And>it s. it \<in> set items' \<Longrightarrow> f it s = g it s"
  shows "choice_loop f items out m = choice_loop g items' out' m'"
proof -
  have "choice_loop f its acc s = choice_loop g its acc s" if "set its \<subseteq> set items'" for its acc s
    using that assms(4) by (induction its arbitrary: acc s) (auto split: prod.splits)
  then show ?thesis using assms(1-3) by simp
qed

section \<open>DTD content models (\<^verbatim>\<open>dtd_index.ts\<close>)\<close>

datatype DtdOccurs = One | Opt | Star | Plus

datatype DtdContentModel =
    NAME jstring DtdOccurs
  | PCDATA DtdOccurs
  | SEQ "DtdContentModel list" DtdOccurs
  | CHOICE "DtdContentModel list" DtdOccurs

fun occurs_of :: "DtdContentModel \<Rightarrow> DtdOccurs" where
  "occurs_of (NAME n oc) = oc"
| "occurs_of (PCDATA oc) = oc"
| "occurs_of (SEQ its oc) = oc"
| "occurs_of (CHOICE its oc) = oc"

datatype DtdMax = Bounded nat | Unbounded

fun occursToRange :: "DtdOccurs \<Rightarrow> nat \<times> DtdMax" where
  "occursToRange Opt = (0, Bounded 1)"
| "occursToRange Star = (0, Unbounded)"
| "occursToRange Plus = (1, Unbounded)"
| "occursToRange One = (1, Bounded 1)"

section \<open>DTD content-model matching (\<^verbatim>\<open>dtd_validator.ts\<close>)\<close>

text \<open>
  The memo table maps the key \<^verbatim>\<open>`${idOf(node)}@${pos}`\<close> to the sorted array of
  end positions. \<^verbatim>\<open>idOf\<close> numbers node objects by identity; here a node stands for
  itself, so two equal subtrees share their entries, which hold the same arrays.
\<close>

lemma size_DtdContentModel_item:
  "it \<in> set items \<Longrightarrow> size it < Suc (size_list size items)"
  by (induction items) auto

type_synonym dtd_memo = "(DtdContentModel \<times> nat) \<rightharpoonup> nat list"

function match_dtd :: "DtdContentModel \<Rightarrow> jstring list \<Rightarrow> nat \<Rightarrow> dtd_memo \<Rightarrow> nat list \<times> dtd_memo"
  and matchOnce_dtd :: "DtdContentModel \<Rightarrow> jstring list \<Rightarrow> nat \<Rightarrow> dtd_memo \<Rightarrow> nat list \<times> dtd_memo"
where
  "match_dtd node children pos memo =
     (case memo (node, pos) of
        Some cached \<Rightarrow> (cached, memo)
      | None \<Rightarrow>
          (case occursToRange (occurs_of node) of (mn, mx) \<Rightarrow>
            (case required_loop (\<lambda>p m. matchOnce_dtd node children p m) mn [pos] memo of
               (None, m1) \<Rightarrow> ([], m1((node, pos) \<mapsto> []))
             | (Some current, m1) \<Rightarrow>
                 let maxExtra = (case mx of Unbounded \<Rightarrow> length children - pos
                                          | Bounded k \<Rightarrow> k - mn)
                 in (case optional_loop (\<lambda>p m. matchOnce_dtd node children p m)
                            maxExtra current current m1 of
                       (results, m2) \<Rightarrow>
                         let out = sort results in (out, m2((node, pos) \<mapsto> out))))))"
| "matchOnce_dtd (NAME name oc) children pos memo =
     (if pos < length children \<and> children ! pos = name then ([pos + 1], memo) else ([], memo))"
| "matchOnce_dtd (PCDATA oc) children pos memo = ([pos], memo)"
| "matchOnce_dtd (SEQ items oc) children pos memo =
     seq_loop (\<lambda>it p m. match_dtd it children p m) items [pos] memo"
| "matchOnce_dtd (CHOICE items oc) children pos memo =
     choice_loop (\<lambda>it m. match_dtd it children pos m) items [] memo"
  by pat_completeness auto

termination
  by (relation "measure (\<lambda>x. case x of
          Inl (node, _, _, _) \<Rightarrow> 2 * size node + 1
        | Inr (node, _, _, _) \<Rightarrow> 2 * size node)")
     (auto dest: size_DtdContentModel_item)

declare match_dtd.simps [simp del]

definition matchesDtdModel :: "DtdContentModel \<Rightarrow> jstring list \<Rightarrow> bool" where
  "matchesDtdModel model children =
     (length children \<in> set (fst (match_dtd model children 0 Map.empty)))"


section \<open>Reachable end positions, as the specification describes them\<close>

text \<open>
  The specification reads a content model as a regular expression over child names:
  \<open>NAME\<close> matches one child of that name, \<open>PCDATA\<close> consumes nothing, \<open>SEQ\<close>
  composes its items from left to right across the position set, \<open>CHOICE\<close> unites its
  alternatives, and a node's own occurrence range allows any number of repetitions
  between its minimum and its maximum. \<open>reachable_ends\<close> follows these words, with no
  memo table, no bound on the number of repetitions and no early exit.
\<close>

definition step_set :: "(nat \<Rightarrow> nat set) \<Rightarrow> nat set \<Rightarrow> nat set" where
  "step_set R P = (\<Union>p\<in>P. R p)"

fun within_max :: "DtdMax \<Rightarrow> nat \<Rightarrow> bool" where
  "within_max Unbounded k = True"
| "within_max (Bounded n) k = (k \<le> n)"

definition repetitions :: "nat \<Rightarrow> DtdMax \<Rightarrow> (nat \<Rightarrow> nat set) \<Rightarrow> nat \<Rightarrow> nat set" where
  "repetitions mn mx R p = (\<Union>k\<in>{k. mn \<le> k \<and> within_max mx k}. (step_set R ^^ k) {p})"

function reachable_ends :: "DtdContentModel \<Rightarrow> jstring list \<Rightarrow> nat \<Rightarrow> nat set"
  and reachable_once :: "DtdContentModel \<Rightarrow> jstring list \<Rightarrow> nat \<Rightarrow> nat set"
where
  "reachable_ends node children pos =
     (case occursToRange (occurs_of node) of (mn, mx) \<Rightarrow>
        repetitions mn mx (\<lambda>p. reachable_once node children p) pos)"
| "reachable_once (NAME name oc) children pos =
     (if pos < length children \<and> children ! pos = name then {pos + 1} else {})"
| "reachable_once (PCDATA oc) children pos = {pos}"
| "reachable_once (SEQ items oc) children pos =
     fold (\<lambda>it P. \<Union>p\<in>P. reachable_ends it children p) items {pos}"
| "reachable_once (CHOICE items oc) children pos =
     (\<Union>it\<in>set items. reachable_ends it children pos)"
  by pat_completeness auto
termination
  by (relation "measure (\<lambda>x. case x of
          Inl (node, _, _) \<Rightarrow> 2 * size node + 1
        | Inr (node, _, _) \<Rightarrow> 2 * size node)")
     (auto dest: size_DtdContentModel_item)

declare reachable_ends.simps [simp del]

section \<open>Document trees (xast) and small helpers\<close>

text \<open>
  A parsed document is a tree of xast nodes. Only elements and text are inspected by
  the validators; the other node kinds are kept as one constructor each. The attribute
  object of an element is an association list in insertion order.
\<close>

datatype Node =
    Element jstring "(jstring \<times> jstring) list" "Node list"
  | Text jstring
  | Comment jstring
  | Cdata jstring
  | Instruction jstring jstring
  | Doctype jstring

fun isElement :: "Node \<Rightarrow> bool" where
  "isElement (Element n a c) = True"
| "isElement other = False"

fun el_name :: "Node \<Rightarrow> jstring" where
  "el_name (Element n a c) = n"
| "el_name other = []"

fun el_attributes :: "Node \<Rightarrow> (jstring \<times> jstring) list" where
  "el_attributes (Element n a c) = a"
| "el_attributes other = []"

fun el_children :: "Node \<Rightarrow> Node list" where
  "el_children (Element n a c) = c"
| "el_children other = []"

text \<open>\<^verbatim>\<open>el.children?.filter((c) => c.type === "element") ?? []\<close>\<close>

definition childElements :: "Node \<Rightarrow> Node list" where
  "childElements el = filter isElement (el_children el)"

text \<open>
  \<^verbatim>\<open>localName\<close>: the part after the first colon, or the whole name when there is none.
\<close>

definition localName :: "jstring \<Rightarrow> jstring" where
  "localName qname =
     (if cu CHR '':'' \<in> set qname then tl (dropWhile (\<lambda>c. c \<noteq> cu CHR '':'') qname)
      else qname)"

text \<open>
  The code units that \<^verbatim>\<open>String.prototype.trim\<close> removes and that \<^verbatim>\<open>\s\<close> matches:
  ECMAScript's WhiteSpace and LineTerminator.
\<close>

definition isJsSpace :: "nat \<Rightarrow> bool" where
  "isJsSpace c \<longleftrightarrow>
     c = 0x09 \<or> c = 0x0A \<or> c = 0x0B \<or> c = 0x0C \<or> c = 0x0D \<or> c = 0x20 \<or> c = 0xA0 \<or>
     c = 0x1680 \<or> (0x2000 \<le> c \<and> c \<le> 0x200A) \<or> c = 0x2028 \<or> c = 0x2029 \<or>
     c = 0x202F \<or> c = 0x205F \<or> c = 0x3000 \<or> c = 0xFEFF"

fun isText :: "Node \<Rightarrow> bool" where
  "isText (Text v) = True"
| "isText other = False"

fun text_value :: "Node \<Rightarrow> jstring" where
  "text_value (Text v) = v"
| "text_value other = []"

text \<open>
  \<^verbatim>\<open>nonWhitespaceText\<close> returns the first text child whose trimmed value is not empty,
  or \<^verbatim>\<open>null\<close>; such a value is a non-empty string, and the callers only test the
  result for truth.
\<close>

definition nonWhitespaceText :: "Node \<Rightarrow> jstring option" where
  "nonWhitespaceText el =
     (case filter (\<lambda>t. \<exists>c \<in> set (text_value t). \<not> isJsSpace c)
             (filter isText (el_children el)) of
        [] \<Rightarrow> None
      | t # ts \<Rightarrow> Some (text_value t))"

text \<open>\<^verbatim>\<open>childElements(el).map((k) => localName(k.name))\<close>\<close>

definition kidNames_of :: "Node \<Rightarrow> jstring list" where
  "kidNames_of el = map (\<lambda>k. localName (el_name k)) (childElements el)"

definition startsWith :: "jstring \<Rightarrow> jstring \<Rightarrow> bool" where
  "startsWith s p \<longleftrightarrow> take (length p) s = p"

text \<open>\<^verbatim>\<open>Array.prototype.join\<close>\<close>

fun join :: "jstring \<Rightarrow> jstring list \<Rightarrow> jstring" where
  "join sep [] = []"
| "join sep [x] = x"
| "join sep (x # y # ys) = x @ sep @ join sep (y # ys)"

text \<open>The decimal digits of a number, as \<^verbatim>\<open>String(n)\<close> prints an integer.\<close>

fun show_nat :: "nat \<Rightarrow> jstring" where
  "show_nat n = (if n < 10 then [48 + n] else show_nat (n div 10) @ [48 + n mod 10])"

declare show_nat.simps [simp del]

definition show_int :: "int \<Rightarrow> jstring" where
  "show_int i = (if i < 0 then cu CHR ''-'' # show_nat (nat (- i)) else show_nat (nat i))"

text \<open>
  The errors a validator collects, and the exceptions of the model: an \<^verbatim>\<open>Error\<close>
  with its message, and the \<^verbatim>\<open>RangeError\<close> the engine throws when the call stack is
  exhausted.
\<close>

type_synonym ValidationError = "jstring \<times> jstring"

datatype js_error = Error jstring | RangeError

text \<open>\<^verbatim>\<open>errors.map((e) => `- ${e.path}: ${e.msg}`).join("\n")\<close>\<close>

definition error_line :: "ValidationError \<Rightarrow> jstring" where
  "error_line e = js ''- '' @ fst e @ js '': '' @ snd e"

definition error_lines :: "ValidationError list \<Rightarrow> jstring" where
  "error_lines errors = join [0x0A] (map error_line errors)"

definition IGNORE_ATTR_PREFIX :: "jstring list" where
  "IGNORE_ATTR_PREFIX = [js ''xmlns'', js ''xml:'', js ''xsi:'']"

definition ignored_attr :: "jstring \<Rightarrow> bool" where
  "ignored_attr a \<longleftrightarrow> (\<exists>p \<in> set IGNORE_ATTR_PREFIX. startsWith a p)"

text \<open>A double quote, for the messages.\<close>

abbreviation dq :: jstring where
  "dq \<equiv> [0x22]"


section \<open>XSD particles and the index (\<^verbatim>\<open>xsd_index.ts\<close>)\<close>

datatype MaxOccurs = Max int | MaxUnbounded

record Occurs =
  min_occ :: int
  max_occ :: MaxOccurs

datatype XsdParticle =
    P_empty Occurs
  | P_element jstring Occurs
  | P_sequence "XsdParticle list" Occurs
  | P_choice "XsdParticle list" Occurs
  | P_all "XsdParticle list" Occurs
  | P_groupRef jstring Occurs
  | P_any Occurs

fun occurs_x :: "XsdParticle \<Rightarrow> Occurs" where
  "occurs_x (P_empty oc) = oc"
| "occurs_x (P_element n oc) = oc"
| "occurs_x (P_sequence its oc) = oc"
| "occurs_x (P_choice its oc) = oc"
| "occurs_x (P_all its oc) = oc"
| "occurs_x (P_groupRef r oc) = oc"
| "occurs_x (P_any oc) = oc"

text \<open>
  \<^verbatim>\<open>use\<close> is declared as \<^verbatim>\<open>"required" | "optional"\<close> but holds whatever string the
  schema wrote (the cast is unchecked), so it is a string here.
\<close>

record XsdAttrDef =
  xa_use :: jstring
  xa_enum :: "jstring list option"
  xa_fixed :: "jstring option"

datatype AllowedChildren = ANY | EMPTY | Names "jstring list"

record XsdComplexTypeDef =
  ct_content :: XsdParticle
  ct_attributes :: "(jstring \<times> XsdAttrDef) list"
  ct_mixed :: bool
  ct_allowAnyAttribute :: bool

record XsdElementDef =
  xe_name :: jstring
  xe_content :: XsdParticle
  xe_attributes :: "(jstring \<times> XsdAttrDef) list"
  xe_mixed :: bool
  xe_allowAnyAttribute :: bool
  xe_allowedChildren :: AllowedChildren

record XsdIndex =
  elements :: "jstring \<rightharpoonup> XsdElementDef"
  complexTypes :: "jstring \<rightharpoonup> XsdComplexTypeDef"
  groups :: "jstring \<rightharpoonup> XsdParticle"
  attributeGroups :: "jstring \<rightharpoonup> (jstring \<times> XsdAttrDef) list"
  attributes :: "jstring \<rightharpoonup> XsdAttrDef"
  substitutionGroups :: "jstring \<rightharpoonup> jstring list"
  substitutionGroupFor :: "jstring \<rightharpoonup> jstring"

section \<open>XSD particle matching (\<^verbatim>\<open>xsd_validator.ts\<close>)\<close>

definition matchesElementName :: "jstring \<Rightarrow> jstring \<Rightarrow> XsdIndex \<Rightarrow> bool" where
  "matchesElementName expected actual xsd =
     (if expected = actual then True
      else (case substitutionGroups xsd expected of
              Some subs \<Rightarrow> actual \<in> set subs
            | None \<Rightarrow> False))"

fun is_any :: "XsdParticle \<Rightarrow> bool" where
  "is_any (P_any oc) = True"
| "is_any other = False"

fun is_element :: "XsdParticle \<Rightarrow> bool" where
  "is_element (P_element n oc) = True"
| "is_element other = False"

fun element_name :: "XsdParticle \<Rightarrow> jstring" where
  "element_name (P_element n oc) = n"
| "element_name other = []"

text \<open>\<^verbatim>\<open>Number.MAX_SAFE_INTEGER\<close>\<close>

definition MAX_SAFE_INTEGER :: int where
  "MAX_SAFE_INTEGER = 9007199254740991"

text \<open>The last loop of \<^verbatim>\<open>allSatisfied\<close>: every item's own bounds against the counts.\<close>

fun items_in_bounds :: "XsdParticle list \<Rightarrow> jstring list \<Rightarrow> bool" where
  "items_in_bounds [] prefix = True"
| "items_in_bounds (P_element name oc # its) prefix =
     (let c = int (count_list prefix name);
          maxN = (case max_occ oc of MaxUnbounded \<Rightarrow> MAX_SAFE_INTEGER | Max k \<Rightarrow> k)
      in if c < min_occ oc \<or> c > maxN then False else items_in_bounds its prefix)"
| "items_in_bounds (P_any oc # its) prefix = items_in_bounds its prefix"
| "items_in_bounds (other # its) prefix = False"

definition allSatisfied :: "XsdParticle list \<Rightarrow> jstring list \<Rightarrow> bool" where
  "allSatisfied items prefix =
     (if filter is_any items = [] \<and> \<not> list_all is_element items then False
      else if filter is_any items = [] \<and>
              \<not> list_all (\<lambda>n. n \<in> set (map element_name items)) prefix then False
      else items_in_bounds items prefix)"

text \<open>
  The loops of the XSD matcher are those of the DTD matcher, except that a call may
  fail: the recursion through group references has no bound of its own, and when the
  call stack is exhausted the engine throws a \<^verbatim>\<open>RangeError\<close>.
\<close>

fun step_positions_e ::
  "(nat \<Rightarrow> 'm \<Rightarrow> js_error + nat list \<times> 'm) \<Rightarrow> nat list \<Rightarrow> nat list \<Rightarrow> 'm
   \<Rightarrow> js_error + nat list \<times> 'm" where
  "step_positions_e once [] nxt m = Inr (nxt, m)"
| "step_positions_e once (p # ps) nxt m =
     (case once p m of
        Inl e \<Rightarrow> Inl e
      | Inr (es, m') \<Rightarrow> step_positions_e once ps (set_add_all nxt es) m')"

fun required_loop_e ::
  "(nat \<Rightarrow> 'm \<Rightarrow> js_error + nat list \<times> 'm) \<Rightarrow> nat \<Rightarrow> nat list \<Rightarrow> 'm
   \<Rightarrow> js_error + nat list option \<times> 'm" where
  "required_loop_e once 0 current m = Inr (Some current, m)"
| "required_loop_e once (Suc k) current m =
     (case step_positions_e once current [] m of
        Inl e \<Rightarrow> Inl e
      | Inr (nxt, m') \<Rightarrow> if nxt = [] then Inr (None, m') else required_loop_e once k nxt m')"

fun optional_loop_e ::
  "(nat \<Rightarrow> 'm \<Rightarrow> js_error + nat list \<times> 'm) \<Rightarrow> nat \<Rightarrow> nat list \<Rightarrow> nat list \<Rightarrow> 'm
   \<Rightarrow> js_error + nat list \<times> 'm" where
  "optional_loop_e once 0 prev results m = Inr (results, m)"
| "optional_loop_e once (Suc k) prev results m =
     (case step_positions_e once prev [] m of
        Inl e \<Rightarrow> Inl e
      | Inr (nxt, m') \<Rightarrow>
          let progressed = (\<exists>e \<in> set nxt. e \<notin> set prev);
              results' = set_add_all results nxt
          in if nxt = [] \<or> \<not> progressed then Inr (results', m')
             else optional_loop_e once k nxt results' m')"

fun seq_loop_e ::
  "('n \<Rightarrow> nat \<Rightarrow> 'm \<Rightarrow> js_error + nat list \<times> 'm) \<Rightarrow> 'n list \<Rightarrow> nat list \<Rightarrow> 'm
   \<Rightarrow> js_error + nat list \<times> 'm" where
  "seq_loop_e f [] positions m = Inr (positions, m)"
| "seq_loop_e f (it # its) positions m =
     (case step_positions_e (f it) positions [] m of
        Inl e \<Rightarrow> Inl e
      | Inr (nxt, m') \<Rightarrow> if nxt = [] then Inr (nxt, m') else seq_loop_e f its nxt m')"

fun choice_loop_e ::
  "('n \<Rightarrow> 'm \<Rightarrow> js_error + nat list \<times> 'm) \<Rightarrow> 'n list \<Rightarrow> nat list \<Rightarrow> 'm
   \<Rightarrow> js_error + nat list \<times> 'm" where
  "choice_loop_e f [] out m = Inr (out, m)"
| "choice_loop_e f (it # its) out m =
     (case f it m of
        Inl e \<Rightarrow> Inl e
      | Inr (es, m') \<Rightarrow> choice_loop_e f its (set_add_all out es) m')"

lemma seq_loop_e_cong [fundef_cong]:
  assumes "items = items'" "positions = positions'" "m = m'"
    and "\<And>it p s. it \<in> set items' \<Longrightarrow> f it p s = g it p s"
  shows "seq_loop_e f items positions m = seq_loop_e g items' positions' m'"
proof -
  have step: "step_positions_e (f it) ps nxt s = step_positions_e (g it) ps nxt s"
    if "it \<in> set items'" for it ps nxt s
    using that assms(4)
    by (induction ps arbitrary: nxt s) (auto split: prod.splits sum.splits)
  have "seq_loop_e f its ps s = seq_loop_e g its ps s" if "set its \<subseteq> set items'" for its ps s
    using that by (induction its arbitrary: ps s) (auto simp: step split: prod.splits sum.splits)
  then show ?thesis using assms(1-3) by simp
qed

lemma choice_loop_e_cong [fundef_cong]:
  assumes "items = items'" "out = out'" "m = m'"
    and "\<And>it s. it \<in> set items' \<Longrightarrow> f it s = g it s"
  shows "choice_loop_e f items out m = choice_loop_e g items' out' m'"
proof -
  have "choice_loop_e f its acc s = choice_loop_e g its acc s"
    if "set its \<subseteq> set items'" for its acc s
    using that assms(4)
    by (induction its arbitrary: acc s) (auto split: prod.splits sum.splits)
  then show ?thesis using assms(1-3) by simp
qed

lemma size_XsdParticle_item:
  "it \<in> set items \<Longrightarrow> size it < Suc (size_list size items)"
  by (induction items) auto

type_synonym xsd_memo = "(XsdParticle \<times> nat) \<rightharpoonup> nat list"

text \<open>
  \<open>depth\<close> is the number of nested group dereferences the call stack still has room
  for: \<^verbatim>\<open>matchOnce\<close> on a \<^verbatim>\<open>groupRef\<close> calls \<^verbatim>\<open>match\<close> on the group's particle, which
  may reach the same reference again before any memo entry for it is written (the
  entry is set when \<^verbatim>\<open>match\<close> returns). As for the DTD matcher, a particle stands for
  its own identity in the memo key.
\<close>

function match_xsd ::
    "nat \<Rightarrow> XsdIndex \<Rightarrow> XsdParticle \<Rightarrow> jstring list \<Rightarrow> nat \<Rightarrow> xsd_memo
     \<Rightarrow> js_error + nat list \<times> xsd_memo"
  and matchOnce_xsd ::
    "nat \<Rightarrow> XsdIndex \<Rightarrow> XsdParticle \<Rightarrow> jstring list \<Rightarrow> nat \<Rightarrow> xsd_memo
     \<Rightarrow> js_error + nat list \<times> xsd_memo"
where
  "match_xsd depth xsd node children pos memo =
     (case memo (node, pos) of
        Some cached \<Rightarrow> Inr (cached, memo)
      | None \<Rightarrow>
          let mn = min_occ (occurs_x node);
              maxCount = (case max_occ (occurs_x node) of
                            MaxUnbounded \<Rightarrow> int (length children) - int pos
                          | Max k \<Rightarrow> k)
          in (case required_loop_e (\<lambda>p m. matchOnce_xsd depth xsd node children p m)
                     (nat mn) [pos] memo of
                Inl e \<Rightarrow> Inl e
              | Inr (None, m1) \<Rightarrow> Inr ([], m1((node, pos) \<mapsto> []))
              | Inr (Some current, m1) \<Rightarrow>
                  (case optional_loop_e (\<lambda>p m. matchOnce_xsd depth xsd node children p m)
                          (nat (maxCount - mn)) current current m1 of
                     Inl e \<Rightarrow> Inl e
                   | Inr (results, m2) \<Rightarrow>
                       let out = sort results in Inr (out, m2((node, pos) \<mapsto> out)))))"
| "matchOnce_xsd depth xsd (P_empty oc) children pos memo = Inr ([pos], memo)"
| "matchOnce_xsd depth xsd (P_element name oc) children pos memo =
     (if pos < length children \<and> matchesElementName name (children ! pos) xsd
      then Inr ([pos + 1], memo) else Inr ([], memo))"
| "matchOnce_xsd depth xsd (P_any oc) children pos memo =
     (if pos < length children then Inr ([pos + 1], memo) else Inr ([], memo))"
| "matchOnce_xsd depth xsd (P_groupRef ref oc) children pos memo =
     (case groups xsd ref of
        None \<Rightarrow> Inr ([], memo)
      | Some grp \<Rightarrow>
          (case depth of
             0 \<Rightarrow> Inl RangeError
           | Suc d \<Rightarrow> match_xsd d xsd grp children pos memo))"
| "matchOnce_xsd depth xsd (P_sequence items oc) children pos memo =
     seq_loop_e (\<lambda>it p m. match_xsd depth xsd it children p m) items [pos] memo"
| "matchOnce_xsd depth xsd (P_choice items oc) children pos memo =
     choice_loop_e (\<lambda>it m. match_xsd depth xsd it children pos m) items [] memo"
| "matchOnce_xsd depth xsd (P_all items oc) children pos memo =
     Inr (filter (\<lambda>e. allSatisfied items (take (e - pos) (drop pos children)))
            [pos ..< Suc (length children)], memo)"
  by pat_completeness auto
termination
  by (relation "measures
        [\<lambda>x. case x of Inl (d, _, _, _, _, _) \<Rightarrow> d | Inr (d, _, _, _, _, _) \<Rightarrow> d,
         \<lambda>x. case x of Inl (_, _, node, _, _, _) \<Rightarrow> size node
                      | Inr (_, _, node, _, _, _) \<Rightarrow> size node,
         \<lambda>x. case x of Inl _ \<Rightarrow> Suc 0 | Inr _ \<Rightarrow> 0]")
     (auto dest: size_XsdParticle_item)

declare match_xsd.simps [simp del]

definition matchesParticle ::
  "nat \<Rightarrow> XsdParticle \<Rightarrow> jstring list \<Rightarrow> XsdIndex \<Rightarrow> js_error + bool" where
  "matchesParticle depth p children xsd =
     (case match_xsd depth xsd p children 0 Map.empty of
        Inl e \<Rightarrow> Inl e
      | Inr (ends, memo) \<Rightarrow> Inr (length children \<in> set ends))"


section \<open>The XSD validator (\<^verbatim>\<open>xsd_validator.ts\<close>)\<close>

definition COMPAT_ATTR_ALLOWLIST :: "jstring \<rightharpoonup> jstring list" where
  "COMPAT_ATTR_ALLOWLIST =
     [js ''topics'' \<mapsto> [js ''web-path''], js ''a'' \<mapsto> [js ''type'', js ''target'']]"

definition RELAXED_CHILD_ORDER :: "jstring list" where
  "RELAXED_CHILD_ORDER =
     [js ''topic'', js ''section-starting-page'', js ''links'', js ''snippet'']"

definition isCompatAttrAllowed :: "jstring \<Rightarrow> jstring \<Rightarrow> bool" where
  "isCompatAttrAllowed elName attrName =
     (case COMPAT_ATTR_ALLOWLIST elName of
        Some s \<Rightarrow> attrName \<in> set s
      | None \<Rightarrow> False)"

text \<open>
  \<^verbatim>\<open>resolveElementDef\<close>: an empty head name is falsy, like a missing one.
\<close>

definition resolveElementDef :: "jstring \<Rightarrow> XsdIndex \<Rightarrow> XsdElementDef option" where
  "resolveElementDef name xsd =
     (case elements xsd name of
        None \<Rightarrow> None
      | Some d \<Rightarrow>
          (case substitutionGroupFor xsd name of
             None \<Rightarrow> Some d
           | Some head \<Rightarrow>
               if head = [] then Some d
               else (case elements xsd head of Some h \<Rightarrow> Some h | None \<Rightarrow> Some d)))"

definition childrenAllowedBySet :: "AllowedChildren \<Rightarrow> jstring list \<Rightarrow> bool" where
  "childrenAllowedBySet allowed kidNames =
     (case allowed of
        ANY \<Rightarrow> True
      | EMPTY \<Rightarrow> kidNames = []
      | Names s \<Rightarrow> list_all (\<lambda>n. n \<in> set s) kidNames)"

text \<open>
  \<^verbatim>\<open>filterCompatChildren\<close> returns the very array it was given when nothing was
  filtered out, so that the caller's \<^verbatim>\<open>compatKidNames !== kidNames\<close> holds exactly when
  a child named \<^verbatim>\<open>include\<close> was removed; the filtered list differs from the given one in
  exactly that case.
\<close>

definition filterCompatChildren :: "jstring list \<Rightarrow> jstring list" where
  "filterCompatChildren kidNames =
     (let filtered = filter (\<lambda>n. n \<noteq> js ''include'') kidNames
      in if length filtered = length kidNames then kidNames else filtered)"

definition countChildren :: "jstring list \<Rightarrow> (jstring \<rightharpoonup> nat)" where
  "countChildren kidNames =
     fold (\<lambda>name counts.
             counts(name \<mapsto> (case counts name of Some c \<Rightarrow> c | None \<Rightarrow> 0) + 1))
       kidNames Map.empty"

definition count_or_zero :: "(jstring \<rightharpoonup> nat) \<Rightarrow> jstring \<Rightarrow> nat" where
  "count_or_zero counts name = (case counts name of Some c \<Rightarrow> c | None \<Rightarrow> 0)"

definition countForName :: "jstring \<Rightarrow> (jstring \<rightharpoonup> nat) \<Rightarrow> XsdIndex \<Rightarrow> nat" where
  "countForName name counts xsd =
     count_or_zero counts name +
     (case substitutionGroups xsd name of
        Some subs \<Rightarrow> sum_list (map (count_or_zero counts) subs)
      | None \<Rightarrow> 0)"

text \<open>
  \<^verbatim>\<open>requiredChildrenSatisfied\<close> follows group references without a guard as well;
  \<open>depth\<close> bounds the nesting as in the matcher.
\<close>

function requiredChildrenSatisfied ::
  "nat \<Rightarrow> XsdParticle \<Rightarrow> (jstring \<rightharpoonup> nat) \<Rightarrow> XsdIndex \<Rightarrow> js_error + bool"
  and all_required ::
  "nat \<Rightarrow> XsdParticle list \<Rightarrow> (jstring \<rightharpoonup> nat) \<Rightarrow> XsdIndex \<Rightarrow> js_error + bool"
  and some_required ::
  "nat \<Rightarrow> XsdParticle list \<Rightarrow> (jstring \<rightharpoonup> nat) \<Rightarrow> XsdIndex \<Rightarrow> js_error + bool"
where
  "requiredChildrenSatisfied depth (P_empty oc) counts xsd = Inr True"
| "requiredChildrenSatisfied depth (P_any oc) counts xsd = Inr True"
| "requiredChildrenSatisfied depth (P_element name oc) counts xsd =
     Inr (int (countForName name counts xsd) \<ge> min_occ oc)"
| "requiredChildrenSatisfied depth (P_sequence items oc) counts xsd =
     (if min_occ oc = 0 then Inr True else all_required depth items counts xsd)"
| "requiredChildrenSatisfied depth (P_all items oc) counts xsd =
     (if min_occ oc = 0 then Inr True else all_required depth items counts xsd)"
| "requiredChildrenSatisfied depth (P_choice items oc) counts xsd =
     (if min_occ oc = 0 then Inr True else some_required depth items counts xsd)"
| "requiredChildrenSatisfied depth (P_groupRef ref oc) counts xsd =
     (if min_occ oc = 0 then Inr True
      else (case groups xsd ref of
              None \<Rightarrow> Inr True
            | Some grp \<Rightarrow>
                (case depth of
                   0 \<Rightarrow> Inl RangeError
                 | Suc d \<Rightarrow> requiredChildrenSatisfied d grp counts xsd)))"
| "all_required depth [] counts xsd = Inr True"
| "all_required depth (it # its) counts xsd =
     (case requiredChildrenSatisfied depth it counts xsd of
        Inl e \<Rightarrow> Inl e
      | Inr False \<Rightarrow> Inr False
      | Inr True \<Rightarrow> all_required depth its counts xsd)"
| "some_required depth [] counts xsd = Inr False"
| "some_required depth (it # its) counts xsd =
     (case requiredChildrenSatisfied depth it counts xsd of
        Inl e \<Rightarrow> Inl e
      | Inr True \<Rightarrow> Inr True
      | Inr False \<Rightarrow> some_required depth its counts xsd)"
  by pat_completeness auto
termination
  by (relation "measures
        [\<lambda>x. case x of Inl (d, _, _, _) \<Rightarrow> d | Inr (Inl (d, _, _, _)) \<Rightarrow> d
                      | Inr (Inr (d, _, _, _)) \<Rightarrow> d,
         \<lambda>x. case x of Inl (_, p, _, _) \<Rightarrow> size p | Inr (Inl (_, ps, _, _)) \<Rightarrow> size_list size ps
                      | Inr (Inr (_, ps, _, _)) \<Rightarrow> size_list size ps]")
     auto

text \<open>The messages of the validator.\<close>

definition formatOccurs :: "Occurs \<Rightarrow> jstring" where
  "formatOccurs oc =
     (let mx = (case max_occ oc of MaxUnbounded \<Rightarrow> [0x221E] | Max k \<Rightarrow> show_int k)
      in if min_occ oc = 1 \<and> max_occ oc = Max 1 then []
         else js ''{'' @ show_int (min_occ oc) @ js ''..'' @ mx @ js ''}'')"

fun formatParticle :: "XsdParticle \<Rightarrow> jstring" where
  "formatParticle (P_empty oc) = [0x2205] @ formatOccurs oc"
| "formatParticle (P_any oc) = js ''<any>'' @ formatOccurs oc"
| "formatParticle (P_element name oc) = js ''<'' @ name @ js ''>'' @ formatOccurs oc"
| "formatParticle (P_groupRef ref oc) = js ''group('' @ ref @ js '')'' @ formatOccurs oc"
| "formatParticle (P_sequence items oc) =
     js ''seq('' @ join (js '', '') (map formatParticle items) @ js '')'' @ formatOccurs oc"
| "formatParticle (P_choice items oc) =
     js ''choice('' @ join (js '' | '') (map formatParticle items) @ js '')'' @ formatOccurs oc"
| "formatParticle (P_all items oc) =
     js ''all('' @ join (js '', '') (map formatParticle items) @ js '')'' @ formatOccurs oc"

definition unknown_attribute_msg :: "jstring \<Rightarrow> jstring \<Rightarrow> jstring" where
  "unknown_attribute_msg a elementName =
     js ''Unknown attribute '' @ dq @ a @ dq @ js '' on <'' @ elementName @ js ''>''"

definition missing_attribute_msg :: "jstring \<Rightarrow> jstring \<Rightarrow> jstring" where
  "missing_attribute_msg a elementName =
     js ''Missing required attribute '' @ dq @ a @ dq @ js '' on <'' @ elementName @ js ''>''"

definition enum_msg :: "jstring \<Rightarrow> jstring list \<Rightarrow> jstring \<Rightarrow> jstring" where
  "enum_msg a vals v =
     js ''Attribute '' @ dq @ a @ dq @ js '' must be one of ('' @ join (js ''|'') vals @
     js ''), got '' @ dq @ v @ dq"

definition xsd_fixed_msg :: "jstring \<Rightarrow> jstring \<Rightarrow> jstring \<Rightarrow> jstring" where
  "xsd_fixed_msg a f v =
     js ''Attribute '' @ dq @ a @ dq @ js '' is fixed to '' @ dq @ f @ dq @ js '', got '' @
     dq @ v @ dq"

definition no_character_data_msg :: "jstring \<Rightarrow> jstring" where
  "no_character_data_msg elementName =
     js ''<'' @ elementName @ js ''> does not allow character data''"

definition xsd_mismatch_msg :: "XsdParticle \<Rightarrow> jstring list \<Rightarrow> jstring" where
  "xsd_mismatch_msg content kidNames =
     js ''Child elements do not match XSD model: expected '' @ formatParticle content @
     js '', got ('' @ join (js '', '') kidNames @ js '')''"

definition root_msg :: "jstring \<Rightarrow> jstring" where
  "root_msg expectedRoot = js ''Root must be <'' @ expectedRoot @ js ''>''"

text \<open>The enum and fixed checks of one present attribute.\<close>

definition xsd_value_errors ::
  "XsdElementDef \<Rightarrow> jstring \<Rightarrow> (jstring \<times> jstring) list \<Rightarrow> jstring \<Rightarrow> ValidationError list" where
  "xsd_value_errors def here attrsObj a =
     (case map_of (xe_attributes def) a of
        None \<Rightarrow> []
      | Some decl \<Rightarrow>
          (let v = (case map_of attrsObj a of Some v \<Rightarrow> v | None \<Rightarrow> js ''undefined'')
           in (case xa_fixed decl of
                 Some f \<Rightarrow> if v \<noteq> f then [(here, xsd_fixed_msg a f v)] else []
               | None \<Rightarrow> []) @
              (case xa_enum decl of
                 Some vals \<Rightarrow> if v \<notin> set vals then [(here, enum_msg a vals v)] else []
               | None \<Rightarrow> [])))"

definition validateAttrs_xsd ::
  "Node \<Rightarrow> jstring \<Rightarrow> XsdElementDef \<Rightarrow> jstring \<Rightarrow> ValidationError list
   \<Rightarrow> ValidationError list" where
  "validateAttrs_xsd el elementName def here errors =
     (let attrsObj = el_attributes el;
          present = filter (\<lambda>a. \<not> ignored_attr a) (map fst attrsObj);
          unknown =
            (if \<not> xe_allowAnyAttribute def
             then map (\<lambda>a. (here, unknown_attribute_msg a elementName))
                    (filter (\<lambda>a. map_of (xe_attributes def) a = None
                                 \<and> \<not> isCompatAttrAllowed elementName a) present)
             else []);
          missing =
            map (\<lambda>(a, decl). (here, missing_attribute_msg a elementName))
              (filter (\<lambda>(a, decl). xa_use decl = js ''required'' \<and> a \<notin> fst ` set attrsObj)
                 (xe_attributes def));
          bad_values = concat (map (xsd_value_errors def here attrsObj) present)
      in errors @ unknown @ missing @ bad_values)"

text \<open>
  \<^verbatim>\<open>const ok = matchesParticle(def.content, kidNames, xsd) || (compatKidNames !== kidNames
  && matchesParticle(def.content, compatKidNames, xsd))\<close>: the second operand of \<^verbatim>\<open>||\<close> is
  evaluated only when the strict match failed, and the second call of \<^verbatim>\<open>matchesParticle\<close>
  only when a child was filtered out.
\<close>

definition children_ok ::
  "nat \<Rightarrow> XsdParticle \<Rightarrow> jstring list \<Rightarrow> jstring list \<Rightarrow> XsdIndex \<Rightarrow> js_error + bool" where
  "children_ok depth content kidNames compatKidNames xsd =
     (case matchesParticle depth content kidNames xsd of
        Inl e \<Rightarrow> Inl e
      | Inr True \<Rightarrow> Inr True
      | Inr False \<Rightarrow>
          if compatKidNames \<noteq> kidNames
          then matchesParticle depth content compatKidNames xsd
          else Inr False)"

text \<open>The relaxed fallback: whether it lets the element pass.\<close>

definition relaxed_ok ::
  "nat \<Rightarrow> jstring \<Rightarrow> XsdElementDef \<Rightarrow> jstring list \<Rightarrow> XsdIndex \<Rightarrow> js_error + bool" where
  "relaxed_ok depth elementName def compatKidNames xsd =
     (if elementName \<in> set RELAXED_CHILD_ORDER \<and>
         childrenAllowedBySet (xe_allowedChildren def) compatKidNames
      then requiredChildrenSatisfied depth (xe_content def) (countChildren compatKidNames) xsd
      else Inr False)"

definition validateChildren_xsd ::
  "nat \<Rightarrow> Node \<Rightarrow> jstring \<Rightarrow> XsdElementDef \<Rightarrow> jstring \<Rightarrow> XsdIndex \<Rightarrow> ValidationError list
   \<Rightarrow> js_error + ValidationError list" where
  "validateChildren_xsd depth el elementName def here xsd errors =
     (let kidNames = kidNames_of el;
          compatKidNames = filterCompatChildren kidNames;
          errors1 = (if nonWhitespaceText el \<noteq> None \<and> \<not> xe_mixed def
                     then errors @ [(here, no_character_data_msg elementName)] else errors)
      in (case children_ok depth (xe_content def) kidNames compatKidNames xsd of
            Inl e \<Rightarrow> Inl e
          | Inr True \<Rightarrow> Inr errors1
          | Inr False \<Rightarrow>
              (case relaxed_ok depth elementName def compatKidNames xsd of
                 Inl e \<Rightarrow> Inl e
               | Inr True \<Rightarrow> Inr errors1
               | Inr False \<Rightarrow>
                   Inr (errors1 @ [(here, xsd_mismatch_msg (xe_content def) kidNames)]))))"

text \<open>The checks \<^verbatim>\<open>walk\<close> makes at one element, before it descends.\<close>

definition here_path :: "jstring \<Rightarrow> jstring \<Rightarrow> jstring" where
  "here_path path name = (if path \<noteq> [] then path @ js ''/'' @ name else js ''/'' @ name)"

definition visit_xsd ::
  "nat \<Rightarrow> Node \<Rightarrow> jstring \<Rightarrow> jstring \<Rightarrow> XsdIndex \<Rightarrow> ValidationError list
   \<Rightarrow> js_error + ValidationError list" where
  "visit_xsd depth el path expectedRoot xsd errors =
     (let name = localName (el_name el);
          here = here_path path name;
          errors1 = (if path = [] \<and> name \<noteq> expectedRoot
                     then errors @ [(here, root_msg expectedRoot)] else errors)
      in (case resolveElementDef name xsd of
            None \<Rightarrow>
              Inr (errors1 @ [(here, js ''Element <'' @ name @ js ''> not declared in XSD'')])
          | Some def \<Rightarrow>
              validateChildren_xsd depth el name def here xsd
                (validateAttrs_xsd el name def here errors1)))"

text \<open>\<^verbatim>\<open>for (const k of childElements(el)) walk(k, here, ...)\<close>, stopped by an exception.\<close>

fun walk_each ::
  "(Node \<Rightarrow> ValidationError list \<Rightarrow> js_error + ValidationError list) \<Rightarrow> Node list
   \<Rightarrow> ValidationError list \<Rightarrow> js_error + ValidationError list" where
  "walk_each f [] errors = Inr errors"
| "walk_each f (k # ks) errors =
     (case f k errors of Inl e \<Rightarrow> Inl e | Inr errors' \<Rightarrow> walk_each f ks errors')"

lemma walk_each_cong [fundef_cong]:
  assumes "ks = ks'" "errors = errors'"
    and "\<And>k es. k \<in> set ks' \<Longrightarrow> f k es = g k es"
  shows "walk_each f ks errors = walk_each g ks' errors'"
proof -
  have "walk_each f xs es = walk_each g xs es" if "set xs \<subseteq> set ks'" for xs es
    using that assms(3) by (induction xs arbitrary: es) (auto split: sum.splits)
  then show ?thesis using assms(1,2) by simp
qed

lemma size_Node_child:
  "k \<in> set c \<Longrightarrow> size k < Suc (size_list size c)"
  by (induction c) auto

function walk_xsd ::
  "nat \<Rightarrow> Node \<Rightarrow> jstring \<Rightarrow> jstring \<Rightarrow> XsdIndex \<Rightarrow> ValidationError list
   \<Rightarrow> js_error + ValidationError list" where
  "walk_xsd depth el path expectedRoot xsd errors =
     (case visit_xsd depth el path expectedRoot xsd errors of
        Inl e \<Rightarrow> Inl e
      | Inr errors' \<Rightarrow>
          walk_each
            (\<lambda>k es. walk_xsd depth k (here_path path (localName (el_name el))) expectedRoot xsd es)
            (childElements el) errors')"
  by pat_completeness auto
termination
proof (relation "measure (\<lambda>(depth, el, path, expectedRoot, xsd, errors). size el)")
  show "wf (measure (\<lambda>(depth, el, path, expectedRoot, xsd, errors). size el))" by simp
next
  fix depth el path expectedRoot xsd errors x2 k es
  assume "k \<in> set (childElements el)"
  then have "size k < size el"
    by (cases el) (auto simp: childElements_def dest: size_Node_child)
  then show "((depth, k, here_path path (localName (el_name el)), expectedRoot, xsd, es),
              (depth, el, path, expectedRoot, xsd, errors))
             \<in> measure (\<lambda>(depth, el, path, expectedRoot, xsd, errors). size el)"
    by simp
qed

declare walk_xsd.simps [simp del]

definition validateAgainstXsd :: "nat \<Rightarrow> Node \<Rightarrow> jstring \<Rightarrow> XsdIndex \<Rightarrow> js_error + unit" where
  "validateAgainstXsd depth root expectedRoot xsd =
     (case walk_xsd depth root [] expectedRoot xsd [] of
        Inl e \<Rightarrow> Inl e
      | Inr errors \<Rightarrow>
          if errors \<noteq> []
          then Inl (Error (js ''XSD validation failed:'' @ [0x0A] @ error_lines errors))
          else Inr ())"


section \<open>The DTD index and validator (\<^verbatim>\<open>dtd_index.ts\<close>, \<^verbatim>\<open>dtd_validator.ts\<close>)\<close>

datatype DtdAttrType = CDATA | ENUM "jstring list" | OTHER jstring

datatype DtdAttrDefault = REQUIRED | IMPLIED | FIXED jstring | DEFAULT jstring

record DtdAttributeDecl =
  da_name :: jstring
  da_type :: DtdAttrType
  da_defaultDecl :: DtdAttrDefault

datatype DtdContent = Content_ANY | Content_EMPTY | Content_model DtdContentModel

record DtdElement =
  de_name :: jstring
  de_content :: DtdContent
  de_allowedChildren :: AllowedChildren
  de_attrs :: "(jstring \<times> DtdAttributeDecl) list"
  de_declaredAttrs :: "jstring list"
  de_requiredAttrs :: "jstring list"

record DtdIndex =
  dtd_elements :: "jstring \<rightharpoonup> DtdElement"

definition dtd_fixed_msg :: "jstring \<Rightarrow> jstring \<Rightarrow> jstring \<Rightarrow> jstring" where
  "dtd_fixed_msg a f v =
     js ''Attribute '' @ dq @ a @ dq @ js '' is #FIXED to '' @ dq @ f @ dq @ js '', got '' @
     dq @ v @ dq"

definition validateAttrValue ::
  "DtdAttributeDecl \<Rightarrow> jstring \<Rightarrow> jstring \<Rightarrow> ValidationError list \<Rightarrow> ValidationError list" where
  "validateAttrValue decl v here errors =
     (let errors1 = (case da_type decl of
                       ENUM vals \<Rightarrow>
                         if v \<notin> set vals then errors @ [(here, enum_msg (da_name decl) vals v)]
                         else errors
                     | other \<Rightarrow> errors)
      in (case da_defaultDecl decl of
            FIXED f \<Rightarrow>
              if v \<noteq> f then errors1 @ [(here, dtd_fixed_msg (da_name decl) f v)] else errors1
          | other \<Rightarrow> errors1))"

text \<open>The body of the loop over the attribute names of the element.\<close>

definition validate_attr_dtd ::
  "DtdElement \<Rightarrow> jstring \<Rightarrow> jstring \<times> jstring \<Rightarrow> ValidationError list \<Rightarrow> ValidationError list" where
  "validate_attr_dtd def here av errors =
     (if ignored_attr (fst av) then errors
      else (case map_of (de_attrs def) (fst av) of
              None \<Rightarrow> errors @ [(here, unknown_attribute_msg (fst av) (de_name def))]
            | Some decl \<Rightarrow> validateAttrValue decl (snd av) here errors))"

definition validateAttrs_dtd ::
  "Node \<Rightarrow> DtdElement \<Rightarrow> jstring \<Rightarrow> ValidationError list \<Rightarrow> ValidationError list" where
  "validateAttrs_dtd el def here errors =
     (let attrsObj = el_attributes el;
          errors1 = fold (validate_attr_dtd def here) attrsObj errors
      in errors1 @
         map (\<lambda>req. (here, missing_attribute_msg req (de_name def)))
           (filter (\<lambda>req. req \<notin> fst ` set attrsObj) (de_requiredAttrs def)))"

fun isPcdataOnly :: "DtdContentModel \<Rightarrow> bool" where
  "isPcdataOnly (PCDATA oc) = True"
| "isPcdataOnly other = False"

text \<open>
  The loop of \<^verbatim>\<open>getMixedAllowedNames\<close>: \<open>None\<close> is its \<^verbatim>\<open>return null\<close>; the names are a
  \<^verbatim>\<open>Set\<close>, of which only membership is used.
\<close>

fun mixed_items :: "DtdContentModel list \<Rightarrow> bool \<Rightarrow> jstring list \<Rightarrow> (bool \<times> jstring list) option" where
  "mixed_items [] hasPcdata names = Some (hasPcdata, names)"
| "mixed_items (PCDATA One # its) hasPcdata names = mixed_items its True names"
| "mixed_items (NAME n One # its) hasPcdata names = mixed_items its hasPcdata (names @ [n])"
| "mixed_items (other # its) hasPcdata names = None"

fun getMixedAllowedNames :: "DtdContentModel \<Rightarrow> jstring list option" where
  "getMixedAllowedNames (CHOICE items Star) =
     (case mixed_items items False [] of
        None \<Rightarrow> None
      | Some (hasPcdata, names) \<Rightarrow> if hasPcdata then Some names else None)"
| "getMixedAllowedNames other = None"

fun applyOccurs :: "jstring \<Rightarrow> DtdOccurs \<Rightarrow> jstring" where
  "applyOccurs s One = s"
| "applyOccurs s Opt = s @ js ''?''"
| "applyOccurs s Star = s @ js ''*''"
| "applyOccurs s Plus = s @ js ''+''"

fun formatDtdModel :: "DtdContentModel \<Rightarrow> jstring" where
  "formatDtdModel (NAME n oc) = applyOccurs n oc"
| "formatDtdModel (PCDATA oc) = applyOccurs (js ''(#PCDATA)'') oc"
| "formatDtdModel (SEQ items oc) =
     applyOccurs (js ''('' @ join (js '','') (map formatDtdModel items) @ js '')'') oc"
| "formatDtdModel (CHOICE items oc) =
     applyOccurs (js ''('' @ join (js ''|'') (map formatDtdModel items) @ js '')'') oc"

definition dtd_mismatch_msg :: "DtdContentModel \<Rightarrow> jstring list \<Rightarrow> jstring" where
  "dtd_mismatch_msg model kidNames =
     js ''Child elements do not match DTD content model: expected '' @ formatDtdModel model @
     js '', got ('' @ join (js '', '') kidNames @ js '')''"

definition validateChildren_dtd ::
  "Node \<Rightarrow> DtdElement \<Rightarrow> jstring \<Rightarrow> ValidationError list \<Rightarrow> ValidationError list" where
  "validateChildren_dtd el def here errors =
     (let kidNames = kidNames_of el;
          nonWsText = nonWhitespaceText el
      in (case de_content def of
            Content_EMPTY \<Rightarrow>
              errors @
              (if kidNames \<noteq> []
               then [(here, js ''<'' @ de_name def @ js ''> must be EMPTY (no child elements)'')]
               else []) @
              (if nonWsText \<noteq> None
               then [(here, js ''<'' @ de_name def @ js ''> must be EMPTY (no character data)'')]
               else [])
          | Content_ANY \<Rightarrow> errors
          | Content_model model \<Rightarrow>
              if isPcdataOnly model
              then errors @
                   (if kidNames \<noteq> []
                    then [(here, js ''<'' @ de_name def @
                                 js ''> allows only #PCDATA (no child elements)'')]
                    else [])
              else (case getMixedAllowedNames model of
                      Some mixed \<Rightarrow>
                        errors @
                        map (\<lambda>childName.
                               (here @ js ''/'' @ childName,
                                js ''Child <'' @ childName @
                                js ''> not allowed in mixed content of <'' @ de_name def @
                                js ''>''))
                          (filter (\<lambda>childName. childName \<notin> set mixed) kidNames)
                    | None \<Rightarrow>
                        (let errors1 =
                               (if nonWsText \<noteq> None
                                then errors @ [(here, no_character_data_msg (de_name def))]
                                else errors)
                         in if matchesDtdModel model kidNames then errors1
                            else errors1 @ [(here, dtd_mismatch_msg model kidNames)]))))"

definition visit_dtd ::
  "Node \<Rightarrow> jstring \<Rightarrow> jstring \<Rightarrow> DtdIndex \<Rightarrow> ValidationError list \<Rightarrow> ValidationError list" where
  "visit_dtd el path expectedRoot dtd errors =
     (let name = localName (el_name el);
          here = here_path path name;
          errors1 = (if path = [] \<and> name \<noteq> expectedRoot
                     then errors @ [(here, root_msg expectedRoot)] else errors)
      in (case dtd_elements dtd name of
            None \<Rightarrow> errors1 @ [(here, js ''Element <'' @ name @ js ''> not declared in DTD'')]
          | Some def \<Rightarrow>
              validateChildren_dtd el def here (validateAttrs_dtd el def here errors1)))"

function walk_dtd ::
  "Node \<Rightarrow> jstring \<Rightarrow> jstring \<Rightarrow> DtdIndex \<Rightarrow> ValidationError list \<Rightarrow> ValidationError list" where
  "walk_dtd el path expectedRoot dtd errors =
     fold (\<lambda>k es. walk_dtd k (here_path path (localName (el_name el))) expectedRoot dtd es)
       (childElements el) (visit_dtd el path expectedRoot dtd errors)"
  by pat_completeness auto
termination
proof (relation "measure (\<lambda>(el, path, expectedRoot, dtd, errors). size el)")
  show "wf (measure (\<lambda>(el, path, expectedRoot, dtd, errors). size el))" by simp
next
  fix el path expectedRoot dtd errors k es
  assume "k \<in> set (childElements el)"
  then have "size k < size el"
    by (cases el) (auto simp: childElements_def dest: size_Node_child)
  then show "((k, here_path path (localName (el_name el)), expectedRoot, dtd, es),
              (el, path, expectedRoot, dtd, errors))
             \<in> measure (\<lambda>(el, path, expectedRoot, dtd, errors). size el)"
    by simp
qed

declare walk_dtd.simps [simp del]

definition validateAgainstDtd :: "Node \<Rightarrow> jstring \<Rightarrow> DtdIndex \<Rightarrow> js_error + unit" where
  "validateAgainstDtd root expectedRoot dtd =
     (let errors = walk_dtd root [] expectedRoot dtd []
      in if errors \<noteq> []
         then Inl (Error (js ''DTD validation failed:'' @ [0x0A] @ error_lines errors))
         else Inr ())"


section \<open>Building the XSD index (\<^verbatim>\<open>xsd_index.ts\<close>)\<close>

text \<open>\<^verbatim>\<open>isEl(n, ln)\<close> and \<^verbatim>\<open>attr(e, k)\<close>\<close>

definition isEl :: "Node \<Rightarrow> jstring \<Rightarrow> bool" where
  "isEl n ln \<longleftrightarrow> isElement n \<and> (ln = [] \<or> localName (el_name n) = ln)"

definition attr :: "Node \<Rightarrow> jstring \<Rightarrow> jstring option" where
  "attr e k = map_of (el_attributes e) k"

text \<open>An attribute that is present and not the empty string (\<^verbatim>\<open>if (nm)\<close>).\<close>

definition truthy_attr :: "Node \<Rightarrow> jstring \<Rightarrow> jstring option" where
  "truthy_attr e k = (case attr e k of Some v \<Rightarrow> if v = [] then None else Some v | None \<Rightarrow> None)"

text \<open>\<^verbatim>\<open>new Set(values)\<close>, and \<^verbatim>\<open>Set.prototype.add\<close>: first insertions, in order.\<close>

definition str_add :: "jstring list \<Rightarrow> jstring \<Rightarrow> jstring list" where
  "str_add xs v = (if v \<in> set xs then xs else xs @ [v])"

definition set_of_values :: "jstring list \<Rightarrow> jstring list" where
  "set_of_values vs = fold (\<lambda>v acc. str_add acc v) vs []"

text \<open>
  The maps that the single pass over the children of \<^verbatim>\<open><xs:schema>\<close> fills
  (\<^verbatim>\<open>buildXsdIndex\<close>, "collect globals").
\<close>

record Globals =
  globalElements :: "jstring \<rightharpoonup> Node"
  complexTypeEls :: "jstring \<rightharpoonup> Node"
  groupEls :: "jstring \<rightharpoonup> Node"
  attributeGroupEls :: "jstring \<rightharpoonup> Node"
  globalAttrEls :: "jstring \<rightharpoonup> Node"
  g_substitutionGroups :: "jstring \<rightharpoonup> jstring list"
  g_substitutionGroupFor :: "jstring \<rightharpoonup> jstring"

definition no_globals :: Globals where
  "no_globals = \<lparr>globalElements = Map.empty, complexTypeEls = Map.empty,
     groupEls = Map.empty, attributeGroupEls = Map.empty, globalAttrEls = Map.empty,
     g_substitutionGroups = Map.empty, g_substitutionGroupFor = Map.empty\<rparr>"

text \<open>The body of the loop, for one child \<open>n\<close> of the schema element: first its branch
  for an \<^verbatim>\<open>element\<close> declaration, then the whole body.\<close>

definition collect_element :: "Node \<Rightarrow> Globals \<Rightarrow> Globals" where
  "collect_element n g =
     (case truthy_attr n (js ''name'') of
        None \<Rightarrow> g
      | Some nm \<Rightarrow>
          let g1 = g\<lparr>globalElements := (globalElements g)(nm \<mapsto> n)\<rparr> in
          (case truthy_attr n (js ''substitutionGroup'') of
             None \<Rightarrow> g1
           | Some sg \<Rightarrow>
               let head = localName sg in
               if head = [] then g1
               else
                 let members = (case g_substitutionGroups g1 head of
                                  Some ms \<Rightarrow> ms | None \<Rightarrow> [])
                 in g1\<lparr>g_substitutionGroupFor := (g_substitutionGroupFor g1)(nm \<mapsto> head),
                       g_substitutionGroups :=
                         (g_substitutionGroups g1)(head \<mapsto> str_add members nm)\<rparr>))"

definition collect_global :: "Node \<Rightarrow> Globals \<Rightarrow> Globals" where
  "collect_global n g =
     (if \<not> isEl n [] then g
      else let ln = localName (el_name n) in
        if ln = js ''element'' then collect_element n g
        else if ln = js ''complexType'' then
          (case truthy_attr n (js ''name'') of
             None \<Rightarrow> g
           | Some nm \<Rightarrow> g\<lparr>complexTypeEls := (complexTypeEls g)(nm \<mapsto> n)\<rparr>)
        else if ln = js ''group'' then
          (case truthy_attr n (js ''name'') of
             None \<Rightarrow> g
           | Some nm \<Rightarrow> g\<lparr>groupEls := (groupEls g)(nm \<mapsto> n)\<rparr>)
        else if ln = js ''attributeGroup'' then
          (case truthy_attr n (js ''name'') of
             None \<Rightarrow> g
           | Some nm \<Rightarrow> g\<lparr>attributeGroupEls := (attributeGroupEls g)(nm \<mapsto> n)\<rparr>)
        else if ln = js ''attribute'' then
          (case truthy_attr n (js ''name'') of
             None \<Rightarrow> g
           | Some nm \<Rightarrow> g\<lparr>globalAttrEls := (globalAttrEls g)(nm \<mapsto> n)\<rparr>)
        else g)"

definition collectGlobals :: "Node \<Rightarrow> Globals" where
  "collectGlobals schema = fold collect_global (el_children schema) no_globals"

text \<open>\<^verbatim>\<open>children.find((n) => isEl(n, ln))\<close>\<close>

definition find_child :: "Node \<Rightarrow> jstring \<Rightarrow> Node option" where
  "find_child e ln = List.find (\<lambda>n. isEl n ln) (el_children e)"

text \<open>
  \<^verbatim>\<open>extractAttributeEnum\<close>: the non-empty \<^verbatim>\<open>value\<close>s of the \<^verbatim>\<open>enumeration\<close>
  children of \<^verbatim>\<open>simpleType/restriction\<close>, or \<^verbatim>\<open>undefined\<close> when there is none.
\<close>

definition extractAttributeEnum :: "Node \<Rightarrow> jstring list option" where
  "extractAttributeEnum attrEl =
     (case find_child attrEl (js ''simpleType'') of
        None \<Rightarrow> None
      | Some simpleType \<Rightarrow>
          (case find_child simpleType (js ''restriction'') of
             None \<Rightarrow> None
           | Some restriction \<Rightarrow>
               let enums = filter (\<lambda>n. isEl n (js ''enumeration'')) (el_children restriction);
                   vals = concat (map (\<lambda>e. case truthy_attr e (js ''value'') of
                                              Some v \<Rightarrow> [v] | None \<Rightarrow> []) enums)
               in if enums = [] then None
                  else if vals = [] then None
                  else Some (set_of_values vals)))"

text \<open>
  \<^verbatim>\<open>parseAttributeDef\<close>. \<^verbatim>\<open>a ?? b\<close> takes \<open>b\<close> only when \<open>a\<close> is missing: an empty
  \<^verbatim>\<open>fixed=""\<close> still overrides; \<^verbatim>\<open>if (ref)\<close> needs a non-empty reference.
\<close>

definition parseAttributeDef :: "Node \<Rightarrow> (jstring \<rightharpoonup> XsdAttrDef) \<Rightarrow> XsdAttrDef" where
  "parseAttributeDef attrEl globalAttributes =
     (let use = (case attr attrEl (js ''use'') of Some u \<Rightarrow> u | None \<Rightarrow> js ''optional'');
          fixed = attr attrEl (js ''fixed'');
          enumVals = extractAttributeEnum attrEl
      in (case truthy_attr attrEl (js ''ref'') of
            Some ref \<Rightarrow>
              let base = globalAttributes (localName ref)
              in \<lparr>xa_use = use,
                  xa_enum = (case enumVals of
                               Some e \<Rightarrow> Some e
                             | None \<Rightarrow> (case base of Some b \<Rightarrow> xa_enum b | None \<Rightarrow> None)),
                  xa_fixed = (case fixed of
                                Some f \<Rightarrow> Some f
                              | None \<Rightarrow> (case base of Some b \<Rightarrow> xa_fixed b | None \<Rightarrow> None))\<rparr>
          | None \<Rightarrow> \<lparr>xa_use = use, xa_enum = enumVals, xa_fixed = fixed\<rparr>))"


section \<open>Example particles\<close>

text \<open>An occurrence range with a finite maximum, and the particle
  \<^verbatim>\<open>all(element a {1,1}, element b {0,1})\<close>, itself occurring exactly once.\<close>

definition occ :: "int \<Rightarrow> int \<Rightarrow> Occurs" where
  "occ a b = \<lparr>min_occ = a, max_occ = Max b\<rparr>"

definition all_ab :: XsdParticle where
  "all_ab = P_all [P_element (js ''a'') (occ 1 1), P_element (js ''b'') (occ 0 1)] (occ 1 1)"


section \<open>The content-model parser (\<^verbatim>\<open>DtdModelParser\<close> in \<^verbatim>\<open>dtd_index.ts\<close>)\<close>

text \<open>
  The parser object holds the text \<open>s\<close> and an index \<open>i\<close>; each method takes the index
  and returns the new one with its result, or the error it throws.
\<close>

definition peek :: "jstring \<Rightarrow> nat \<Rightarrow> nat option" where
  "peek s i = (if i < length s then Some (s ! i) else None)"

text \<open>\<^verbatim>\<open>while (this.i < this.s.length && /\s/.test(this.s[this.i])) this.i++\<close>\<close>

definition skipWs :: "jstring \<Rightarrow> nat \<Rightarrow> nat" where
  "skipWs s i = i + length (takeWhile isJsSpace (drop i s))"

definition name_stop :: "nat \<Rightarrow> bool" where
  "name_stop c \<longleftrightarrow>
     isJsSpace c \<or> c = cu CHR ''('' \<or> c = cu CHR '')'' \<or> c = cu CHR ''|'' \<or>
     c = cu CHR '','' \<or> c = cu CHR ''?'' \<or> c = cu CHR ''*'' \<or> c = cu CHR ''+''"

text \<open>\<^verbatim>\<open>readName\<close>: the name read and the index after it.\<close>

definition readName :: "jstring \<Rightarrow> nat \<Rightarrow> jstring \<times> nat" where
  "readName s i =
     (let start = skipWs s i;
          name = takeWhile (\<lambda>c. \<not> name_stop c) (drop start s)
      in (name, start + length name))"

definition expect :: "jstring \<Rightarrow> nat \<Rightarrow> char \<Rightarrow> js_error + nat" where
  "expect s i ch =
     (if peek s i \<noteq> Some (cu ch)
      then Inl (Error (js ''Expected '' @ [0x27, cu ch, 0x27] @ js '' at '' @ show_nat i))
      else Inr (i + 1))"

text \<open>
  The loop that reads the alternatives of a mixed model \<^verbatim>\<open>(#PCDATA|a|b)\<close>; it ends at
  the first token that is not \<^verbatim>\<open>|\<close>.
\<close>

lemma skipWs_ge: "i \<le> skipWs s i"
  by (simp add: skipWs_def)

lemma skipWs_idem: "skipWs s (skipWs s i) = skipWs s i"
proof -
  have t: "takeWhile P (dropWhile P xs) = []" for P and xs :: "nat list"
    by (induction xs) auto
  have "drop (i + length (takeWhile isJsSpace (drop i s))) s = dropWhile isJsSpace (drop i s)"
    by (simp add: dropWhile_eq_drop add.commute)
  then show ?thesis by (simp add: skipWs_def t)
qed

lemma readName_ge: "i \<le> snd (readName s i)"
  using skipWs_ge [of i s] by (simp add: readName_def Let_def)

function mixed_loop ::
  "jstring \<Rightarrow> DtdContentModel list \<Rightarrow> nat \<Rightarrow> js_error + DtdContentModel list \<times> nat" where
  "mixed_loop s items i =
     (let i1 = skipWs s i in
      if peek s i1 \<noteq> Some (cu CHR ''|'') then Inr (items, i1)
      else (case readName s (i1 + 1) of
              (nm, i2) \<Rightarrow>
                if nm = []
                then Inl (Error (js ''Expected NAME in mixed model at index '' @ show_nat i2))
                else mixed_loop s (items @ [NAME nm One]) i2))"
  by pat_completeness auto
termination
proof (relation "measure (\<lambda>(s, items, i). length s - i)", goal_cases)
  case 1
  show ?case by simp
next
  case (2 s items i x xa y)
  then have "x < length s" by (auto simp: peek_def split: if_splits)
  moreover from 2 have "i \<le> x" using skipWs_ge by simp
  moreover from 2 have "x + 1 \<le> y" using readName_ge [of "x + 1" s] by (metis snd_conv)
  ultimately show ?case by simp
qed

declare mixed_loop.simps [simp del]

fun with_occurs :: "DtdContentModel \<Rightarrow> DtdOccurs \<Rightarrow> DtdContentModel" where
  "with_occurs (NAME n oc) q = NAME n q"
| "with_occurs (PCDATA oc) q = PCDATA q"
| "with_occurs (SEQ its oc) q = SEQ its q"
| "with_occurs (CHOICE its oc) q = CHOICE its q"

datatype Mode = M_CHOICE | M_SEQ

definition mode_of :: "nat \<Rightarrow> Mode" where
  "mode_of op = (if op = cu CHR ''|'' then M_CHOICE else M_SEQ)"

definition mixed_error :: "nat \<Rightarrow> js_error" where
  "mixed_error i =
     Error (js ''Mixed '' @ [0x27] @ js ''|'' @ [0x27] @ js '' and '' @ [0x27] @ js '','' @
            [0x27] @ js '' without parentheses near index '' @ show_nat i)"

text \<open>
  \<open>parseExpr\<close>, its loop, \<open>parseTerm\<close> and \<open>parseAtom\<close>. \<open>depth\<close> is the room the call
  stack has for nested parentheses. In the loop, the index after a term is beyond the
  operator that precedes it (\<open>parseTerm_advances\<close> below), so the branch for
  \<open>i2 \<le> i1\<close> is never taken; it is there for the recursion to be well founded.
\<close>

function parseExpr :: "nat \<Rightarrow> jstring \<Rightarrow> nat \<Rightarrow> js_error + DtdContentModel \<times> nat"
  and expr_loop ::
    "nat \<Rightarrow> jstring \<Rightarrow> DtdContentModel \<Rightarrow> Mode option \<Rightarrow> DtdContentModel list \<Rightarrow> nat
     \<Rightarrow> js_error + DtdContentModel \<times> nat"
  and parseTerm :: "nat \<Rightarrow> jstring \<Rightarrow> nat \<Rightarrow> js_error + DtdContentModel \<times> nat"
  and parseAtom :: "nat \<Rightarrow> jstring \<Rightarrow> nat \<Rightarrow> js_error + DtdContentModel \<times> nat"
where
  "parseExpr depth s i =
     (case parseTerm depth s i of
        Inl e \<Rightarrow> Inl e
      | Inr (left, i1) \<Rightarrow> expr_loop depth s left None [left] (skipWs s i1))"
| "expr_loop depth s left mode items i =
     (let i1 = skipWs s i in
      if peek s i1 \<noteq> Some (cu CHR ''|'') \<and> peek s i1 \<noteq> Some (cu CHR '','')
      then (case mode of
              None \<Rightarrow> Inr (left, i1)
            | Some M_CHOICE \<Rightarrow> Inr (CHOICE items One, i1)
            | Some M_SEQ \<Rightarrow> Inr (SEQ items One, i1))
      else
        let nextMode = mode_of (s ! i1) in
        if mode \<noteq> None \<and> mode \<noteq> Some nextMode then Inl (mixed_error i1)
        else (case parseTerm depth s (i1 + 1) of
                Inl e \<Rightarrow> Inl e
              | Inr (right, i2) \<Rightarrow>
                  if i2 \<le> i1 then Inl RangeError
                  else expr_loop depth s left (Some nextMode) (items @ [right]) i2))"
| "parseTerm depth s i =
     (case parseAtom depth s (skipWs s i) of
        Inl e \<Rightarrow> Inl e
      | Inr (node, i1) \<Rightarrow>
          let i2 = skipWs s i1 in
          if peek s i2 = Some (cu CHR ''?'') then Inr (with_occurs node Opt, i2 + 1)
          else if peek s i2 = Some (cu CHR ''*'') then Inr (with_occurs node Star, i2 + 1)
          else if peek s i2 = Some (cu CHR ''+'') then Inr (with_occurs node Plus, i2 + 1)
          else Inr (node, i2))"
| "parseAtom depth s i =
     (let i0 = skipWs s i in
      if peek s i0 = Some (cu CHR ''('') then
        (let i1 = skipWs s (i0 + 1) in
         if take 7 (drop i1 s) = js ''#PCDATA'' then
           (let i2 = skipWs s (i1 + 7) in
            if peek s i2 = Some (cu CHR '')'') then Inr (PCDATA One, i2 + 1)
            else (case mixed_loop s [PCDATA One] i2 of
                    Inl e \<Rightarrow> Inl e
                  | Inr (items, i3) \<Rightarrow>
                      (case expect s (skipWs s i3) CHR '')'' of
                         Inl e \<Rightarrow> Inl e
                       | Inr i4 \<Rightarrow> Inr (CHOICE items One, i4))))
         else (case depth of
                 0 \<Rightarrow> Inl RangeError
               | Suc d \<Rightarrow>
                   (case parseExpr d s i1 of
                      Inl e \<Rightarrow> Inl e
                    | Inr (inner, i2) \<Rightarrow>
                        (case expect s (skipWs s i2) CHR '')'' of
                           Inl e \<Rightarrow> Inl e
                         | Inr i3 \<Rightarrow> Inr (inner, i3)))))
      else (case readName s i0 of
              (name, i1) \<Rightarrow>
                if name = [] then Inl (Error (js ''Expected NAME at index '' @ show_nat i1))
                else Inr (NAME name One, i1)))"
  by pat_completeness auto
termination
proof (relation "measures
    [\<lambda>x. case x of Inl (Inl (d, _)) \<Rightarrow> d | Inl (Inr (d, _)) \<Rightarrow> d
                  | Inr (Inl (d, _)) \<Rightarrow> d | Inr (Inr (d, _)) \<Rightarrow> d,
     \<lambda>x. case x of Inl (Inl _) \<Rightarrow> 3 | Inl (Inr _) \<Rightarrow> 2
                  | Inr (Inl _) \<Rightarrow> Suc 0 | Inr (Inr _) \<Rightarrow> 0,
     \<lambda>x. case x of Inl (Inr (d, s, left, mode, items, i)) \<Rightarrow> length s - skipWs s i
                  | _ \<Rightarrow> 0]", goal_cases)
  case 1
  show ?case by simp
next
  case (5 depth s left mode items i x xa x2 xb y)
  then have lt: "skipWs s i < length s" by (auto simp: peek_def split: if_splits)
  from 5 have "skipWs s i < y" by simp
  with skipWs_ge [of y s] have "skipWs s i < skipWs s y" by simp
  with lt show ?case by simp
qed simp_all

declare parseExpr.simps [simp del] expr_loop.simps [simp del] parseTerm.simps [simp del]
  parseAtom.simps [simp del]

text \<open>
  \<^verbatim>\<open>parse\<close>: the whole text must be consumed. \<^verbatim>\<open>parseElementModel\<close>: the trimmed model
  is \<^verbatim>\<open>ANY\<close>, \<^verbatim>\<open>EMPTY\<close> or a content model.
\<close>

definition parse :: "nat \<Rightarrow> jstring \<Rightarrow> js_error + DtdContentModel" where
  "parse depth s =
     (case parseExpr depth s 0 of
        Inl e \<Rightarrow> Inl e
      | Inr (node, i) \<Rightarrow>
          let i1 = skipWs s i in
          if i1 \<noteq> length s
          then Inl (Error (js ''Trailing content-model input at '' @ show_nat i1 @ js '': '' @
                           dq @ drop i1 s @ dq))
          else Inr node)"

definition trim :: "jstring \<Rightarrow> jstring" where
  "trim s = rev (dropWhile isJsSpace (rev (dropWhile isJsSpace s)))"

definition parseElementModel :: "nat \<Rightarrow> jstring \<Rightarrow> js_error + DtdContent" where
  "parseElementModel depth model =
     (let m = trim model in
      if m = js ''ANY'' then Inr Content_ANY
      else if m = js ''EMPTY'' then Inr Content_EMPTY
      else (case parse depth m of
              Inl e \<Rightarrow> Inl e
            | Inr node \<Rightarrow> Inr (Content_model node)))"


chapter \<open>Properties\<close>

section \<open>The DTD matcher computes the reachable end positions\<close>

subsection \<open>step_set\<close>

lemma step_set_empty [simp]: "step_set R {} = {}"
  by (simp add: step_set_def)

lemma step_set_single [simp]: "step_set R {p} = R p"
  by (simp add: step_set_def)

lemma step_set_mono: "P \<subseteq> Q \<Longrightarrow> step_set R P \<subseteq> step_set R Q"
  by (auto simp: step_set_def)

lemma step_set_Un: "step_set R (P \<union> Q) = step_set R P \<union> step_set R Q"
  by (auto simp: step_set_def)

lemma funpow_step_empty [simp]: "(step_set R ^^ n) {} = {}"
  by (induction n) simp_all

lemma funpow_step_mono: "P \<subseteq> Q \<Longrightarrow> (step_set R ^^ n) P \<subseteq> (step_set R ^^ n) Q"
  by (induction n) (simp_all add: step_set_mono)

lemma funpow_step_UN: "(step_set R ^^ n) P = (\<Union>q\<in>P. (step_set R ^^ n) {q})"
proof (induction n)
  case 0
  show ?case by simp
next
  case (Suc n)
  have "(step_set R ^^ Suc n) P = step_set R ((step_set R ^^ n) P)" by simp
  also have "\<dots> = step_set R (\<Union>q\<in>P. (step_set R ^^ n) {q})" using Suc by simp
  also have "\<dots> = (\<Union>q\<in>P. step_set R ((step_set R ^^ n) {q}))"
    by (auto simp: step_set_def)
  finally show ?case by simp
qed

lemma funpow_step_Suc: "(step_set R ^^ Suc n) {p} = (\<Union>q\<in>R p. (step_set R ^^ n) {q})"
proof -
  have "(step_set R ^^ Suc n) {p} = (step_set R ^^ n) (step_set R {p})"
    by (simp only: funpow_Suc_right o_apply)
  also have "\<dots> = (\<Union>q\<in>R p. (step_set R ^^ n) {q})"
    using funpow_step_UN [where R=R and n=n and P="R p"] by simp
  finally show ?thesis .
qed

lemma funpow_step_shrink:
  assumes "step_set R P \<subseteq> P"
  shows "(step_set R ^^ Suc j) P \<subseteq> step_set R P"
proof -
  have "(step_set R ^^ i) P \<subseteq> P" for i
  proof (induction i)
    case 0 show ?case by simp
  next
    case (Suc i)
    have "(step_set R ^^ Suc i) P = step_set R ((step_set R ^^ i) P)" by simp
    also have "\<dots> \<subseteq> step_set R P" using Suc by (rule step_set_mono)
    finally show ?case using assms by blast
  qed
  then have "step_set R ((step_set R ^^ j) P) \<subseteq> step_set R P" by (rule step_set_mono)
  then show ?thesis by simp
qed

text \<open>Dropping zero-width steps: what \<open>n\<close> steps reach, at most \<open>m + (len - p)\<close> steps reach.\<close>

lemma funpow_step_compress:
  assumes R: "\<And>p e. e \<in> R p \<Longrightarrow> p \<le> e \<and> (p < e \<longrightarrow> e \<le> len)"
  shows "e \<in> (step_set R ^^ n) {p} \<Longrightarrow> m \<le> n \<Longrightarrow>
         \<exists>j. m \<le> j \<and> j \<le> m + (len - p) \<and> e \<in> (step_set R ^^ j) {p}"
proof (induction n arbitrary: p m)
  case 0
  then show ?case by auto
next
  case (Suc n)
  from Suc.prems(1) obtain q where q: "q \<in> R p" and e: "e \<in> (step_set R ^^ n) {q}"
    unfolding funpow_step_Suc by blast
  from R [OF q] have pq: "p \<le> q" "p < q \<longrightarrow> q \<le> len" by auto
  show ?case
  proof (cases m)
    case 0
    from Suc.IH [OF e, of 0] obtain j where j: "j \<le> len - q" "e \<in> (step_set R ^^ j) {q}"
      by auto
    show ?thesis
    proof (cases "q = p")
      case True
      with j 0 show ?thesis by (intro exI [of _ j]) simp
    next
      case False
      with pq have "p < q" "q \<le> len" by auto
      then have "Suc j \<le> len - p" using j(1) by arith
      moreover have "e \<in> (step_set R ^^ Suc j) {p}"
        unfolding funpow_step_Suc using q j(2) by blast
      ultimately show ?thesis using 0
        by (intro exI [of _ "Suc j"]) (simp del: funpow.simps)
    qed
  next
    case (Suc m')
    with Suc.prems(2) have "m' \<le> n" by simp
    from Suc.IH [OF e this] obtain j where
      j: "m' \<le> j" "j \<le> m' + (len - q)" "e \<in> (step_set R ^^ j) {q}" by auto
    have "e \<in> (step_set R ^^ Suc j) {p}"
      unfolding funpow_step_Suc using q j(3) by blast
    moreover have "Suc j \<le> m + (len - p)" using j(2) pq(1) Suc by arith
    moreover have "m \<le> Suc j" using j(1) Suc by simp
    ultimately show ?thesis
      by (intro exI [of _ "Suc j"]) (simp del: funpow.simps)
  qed
qed

subsection \<open>The loops compute the set-level iteration\<close>

definition sound :: "('m \<Rightarrow> bool) \<Rightarrow> (nat \<Rightarrow> 'm \<Rightarrow> nat list \<times> 'm) \<Rightarrow> (nat \<Rightarrow> nat set) \<Rightarrow> bool" where
  "sound I once R \<longleftrightarrow> (\<forall>p m. I m \<longrightarrow> set (fst (once p m)) = R p \<and> I (snd (once p m)))"

lemma set_set_add_all [simp]: "set (set_add_all xs es) = set xs \<union> set es"
proof -
  have "set (fold (\<lambda>e acc. set_add acc e) es xs) = set xs \<union> set es" for xs
    by (induction es arbitrary: xs) (auto simp: set_add_def)
  then show ?thesis by (simp add: set_add_all_def)
qed

lemma step_positions_sound:
  assumes "sound I once R"
  shows "I m \<Longrightarrow> step_positions once ps nxt m = (r, m') \<Longrightarrow>
         set r = set nxt \<union> step_set R (set ps) \<and> I m'"
proof (induction ps arbitrary: nxt m)
  case Nil
  then show ?case by simp
next
  case (Cons p ps)
  obtain es m1 where o: "once p m = (es, m1)" by (cases "once p m")
  with assms Cons.prems(1) have es: "set es = R p" "I m1"
    unfolding sound_def by (metis fst_conv, metis snd_conv)
  from Cons.prems(2) o have "step_positions once ps (set_add_all nxt es) m1 = (r, m')" by simp
  from Cons.IH [OF es(2) this] es(1) show ?case
    by (auto simp: step_set_def)
qed

lemma required_loop_sound:
  assumes "sound I once R"
  shows "I m \<Longrightarrow> required_loop once k cur m = (res, m') \<Longrightarrow>
         I m' \<and> (case res of None \<Rightarrow> (step_set R ^^ k) (set cur) = {}
                  | Some c \<Rightarrow> set c = (step_set R ^^ k) (set cur))"
proof (induction k arbitrary: cur m)
  case 0
  then show ?case by auto
next
  case (Suc k)
  obtain nxt m1 where s: "step_positions once cur [] m = (nxt, m1)"
    by (cases "step_positions once cur [] m")
  from step_positions_sound [OF assms Suc.prems(1) s]
  have nxt: "set nxt = step_set R (set cur)" "I m1" by auto
  have unfold: "(step_set R ^^ Suc k) (set cur) = (step_set R ^^ k) (set nxt)"
    by (simp only: funpow_Suc_right o_apply nxt(1))
  show ?case
  proof (cases "nxt = []")
    case True
    with Suc.prems(2) s have "res = None" "m' = m1" by auto
    with nxt True show ?thesis unfolding unfold by simp
  next
    case False
    with Suc.prems(2) s have "required_loop once k nxt m1 = (res, m')" by simp
    from Suc.IH [OF nxt(2) this] show ?thesis unfolding unfold .
  qed
qed

lemma optional_loop_sound:
  assumes "sound I once R"
  shows "I m \<Longrightarrow> optional_loop once k prev results m = (res, m') \<Longrightarrow>
         I m' \<and> set res = set results \<union>
                  {e. \<exists>j. 1 \<le> j \<and> j \<le> k \<and> e \<in> (step_set R ^^ j) (set prev)}"
proof (induction k arbitrary: prev results m)
  case 0
  then show ?case by auto
next
  case (Suc k)
  obtain nxt m1 where s: "step_positions once prev [] m = (nxt, m1)"
    by (cases "step_positions once prev [] m")
  from step_positions_sound [OF assms Suc.prems(1) s]
  have nxt: "set nxt = step_set R (set prev)" "I m1" by auto
  have shift: "(step_set R ^^ Suc j) (set prev) = (step_set R ^^ j) (set nxt)" for j
    by (simp only: funpow_Suc_right o_apply nxt(1))
  have split: "{e. \<exists>j. 1 \<le> j \<and> j \<le> Suc k \<and> e \<in> (step_set R ^^ j) (set prev)}
        = set nxt \<union> {e. \<exists>j. 1 \<le> j \<and> j \<le> k \<and> e \<in> (step_set R ^^ j) (set nxt)}"
    (is "?L = ?N \<union> ?M")
  proof (intro set_eqI iffI)
    fix e assume "e \<in> ?L"
    then obtain j where j: "1 \<le> j" "j \<le> Suc k" "e \<in> (step_set R ^^ j) (set prev)" by blast
    then obtain i where i: "j = Suc i" by (cases j) auto
    with j(3) have e: "e \<in> (step_set R ^^ i) (set nxt)" by (simp only: shift)
    show "e \<in> ?N \<union> ?M"
    proof (cases i)
      case 0
      with e show ?thesis by simp
    next
      case (Suc i')
      with i j(2) e have "1 \<le> i \<and> i \<le> k \<and> e \<in> (step_set R ^^ i) (set nxt)" by simp
      then show ?thesis by blast
    qed
  next
    fix e assume "e \<in> ?N \<union> ?M"
    then consider "e \<in> ?N" | "e \<in> ?M" by blast
    then show "e \<in> ?L"
    proof cases
      case 1
      then have "e \<in> (step_set R ^^ Suc 0) (set prev)" by (simp only: shift) simp
      then have "1 \<le> Suc 0 \<and> Suc 0 \<le> Suc k \<and> e \<in> (step_set R ^^ Suc 0) (set prev)" by simp
      then show ?thesis by blast
    next
      case 2
      then obtain j where j: "1 \<le> j" "j \<le> k" "e \<in> (step_set R ^^ j) (set nxt)" by blast
      then have "1 \<le> Suc j \<and> Suc j \<le> Suc k \<and> e \<in> (step_set R ^^ Suc j) (set prev)"
        by (simp only: shift) simp
      then show ?thesis by blast
    qed
  qed
  show ?case
  proof (cases "nxt = [] \<or> \<not> (\<exists>e \<in> set nxt. e \<notin> set prev)")
    case True
    then have sub: "step_set R (set prev) \<subseteq> set prev" using nxt(1) by auto
    from True Suc.prems(2) s have r: "res = set_add_all results nxt" "m' = m1"
      by (auto simp: Let_def)
    have "(step_set R ^^ j) (set nxt) \<subseteq> set nxt" for j
      using funpow_step_shrink [OF sub, of j] unfolding shift nxt(1) .
    then have "?M \<subseteq> set nxt" by blast
    with r nxt(2) show ?thesis unfolding split by auto
  next
    case False
    then have "nxt \<noteq> []" "\<not> (\<forall>e \<in> set nxt. e \<in> set prev)" by auto
    with Suc.prems(2) s have
      "optional_loop once k nxt (set_add_all results nxt) m1 = (res, m')"
      by (simp add: Let_def)
    from Suc.IH [OF nxt(2) this] show ?thesis unfolding split by auto
  qed
qed


lemma seq_loop_sound:
  assumes "\<And>it. it \<in> set items \<Longrightarrow> sound I (f it) (R it)"
  shows "I m \<Longrightarrow> seq_loop f items positions m = (r, m') \<Longrightarrow>
         set r = fold (\<lambda>it P. step_set (R it) P) items (set positions) \<and> I m'"
  using assms
proof (induction items arbitrary: positions m)
  case Nil
  then show ?case by simp
next
  case (Cons it its)
  have it: "sound I (f it) (R it)" using Cons.prems(3) by simp
  obtain nxt m1 where s: "step_positions (f it) positions [] m = (nxt, m1)"
    by (cases "step_positions (f it) positions [] m")
  from step_positions_sound [OF it Cons.prems(1) s]
  have nxt: "set nxt = step_set (R it) (set positions)" "I m1" by auto
  show ?case
  proof (cases "nxt = []")
    case True
    have "fold (\<lambda>it P. step_set (R it) P) xs {} = {}" for xs
      by (induction xs) simp_all
    with True nxt Cons.prems(2) s show ?thesis by auto
  next
    case False
    with Cons.prems(2) s have "seq_loop f its nxt m1 = (r, m')" by simp
    from Cons.IH [OF nxt(2) this] Cons.prems(3) nxt(1) show ?thesis by simp
  qed
qed

lemma choice_loop_sound:
  assumes "\<And>it s. it \<in> set items \<Longrightarrow> I s \<Longrightarrow>
             set (fst (f it s)) = R it \<and> I (snd (f it s))"
  shows "I m \<Longrightarrow> choice_loop f items out m = (r, m') \<Longrightarrow>
         set r = set out \<union> (\<Union>it\<in>set items. R it) \<and> I m'"
  using assms
proof (induction items arbitrary: out m)
  case Nil
  then show ?case by simp
next
  case (Cons it its)
  obtain es m1 where o: "f it m = (es, m1)" by (cases "f it m")
  with Cons.prems(1) Cons.prems(3) [of it m] have es: "set es = R it" "I m1" by auto
  from Cons.prems(2) o have "choice_loop f its (set_add_all out es) m1 = (r, m')" by simp
  from Cons.IH [OF es(2) this] Cons.prems(3) es(1) show ?case by auto
qed

subsection \<open>Positions only move forward, and never past the end\<close>

definition forward :: "nat \<Rightarrow> nat \<Rightarrow> nat \<Rightarrow> bool" where
  "forward len p e \<longleftrightarrow> p \<le> e \<and> (p < e \<longrightarrow> e \<le> len)"

lemma forward_refl [simp]: "forward len p p"
  by (simp add: forward_def)

lemma forward_trans: "forward len p q \<Longrightarrow> forward len q e \<Longrightarrow> forward len p e"
  by (auto simp: forward_def)

lemma funpow_step_forward:
  assumes "\<And>p e. e \<in> R p \<Longrightarrow> forward len p e"
  shows "e \<in> (step_set R ^^ k) {p} \<Longrightarrow> forward len p e"
proof (induction k arbitrary: p)
  case 0
  then show ?case by simp
next
  case (Suc k)
  then obtain q where "q \<in> R p" "e \<in> (step_set R ^^ k) {q}"
    unfolding funpow_step_Suc by blast
  with assms Suc.IH show ?case by (blast intro: forward_trans)
qed

lemma fold_step_forward:
  assumes "\<And>it p e. it \<in> set items \<Longrightarrow> e \<in> R it p \<Longrightarrow> forward len p e"
  shows "e \<in> fold (\<lambda>it P. step_set (R it) P) items P0 \<Longrightarrow> \<exists>p\<in>P0. forward len p e"
  using assms
proof (induction items arbitrary: P0)
  case Nil
  then show ?case by (auto intro: bexI [of _ e])
next
  case (Cons it its)
  from Cons.prems(1) have "e \<in> fold (\<lambda>it P. step_set (R it) P) its (step_set (R it) P0)"
    by simp
  from Cons.IH [OF this] Cons.prems(2)
  obtain q where q: "q \<in> step_set (R it) P0" "forward len q e" by auto
  then obtain p where "p \<in> P0" "q \<in> R it p" by (auto simp: step_set_def)
  with q Cons.prems(2) [of it q p] show ?case by (auto intro: forward_trans)
qed

lemma reachable_forward:
  "e \<in> reachable_ends node children pos \<Longrightarrow> forward (length children) pos e"
  "e \<in> reachable_once node children pos \<Longrightarrow> forward (length children) pos e"
proof (induction node children pos and node children pos arbitrary: e and e
       rule: reachable_ends_reachable_once.induct)
  case (1 node children pos)
  obtain mn mx where r: "occursToRange (occurs_of node) = (mn, mx)"
    by (cases "occursToRange (occurs_of node)")
  from "1.prems" r obtain k where
    "e \<in> (step_set (\<lambda>p. reachable_once node children p) ^^ k) {pos}"
    by (auto simp: reachable_ends.simps repetitions_def)
  then show ?case
    using funpow_step_forward [of "\<lambda>p. reachable_once node children p"] "1.IH" [OF r [symmetric]]
    by blast
next
  case (2 name oc children pos)
  then show ?case by (auto simp: forward_def split: if_splits)
next
  case (3 oc children pos)
  then show ?case by simp
next
  case (4 items oc children pos)
  from "4.prems" have
    "e \<in> fold (\<lambda>it P. step_set (\<lambda>p. reachable_ends it children p) P) items {pos}"
    by (simp add: step_set_def)
  from fold_step_forward [where R = "\<lambda>it p. reachable_ends it children p", OF _ this]
    "4.IH" show ?case by blast
next
  case (5 items oc children pos)
  then show ?case by auto
qed


subsection \<open>The window of repetition counts the loops cover\<close>

lemma funpow_step_add:
  "(step_set R ^^ j) ((step_set R ^^ mn) X) = (step_set R ^^ (j + mn)) X"
  by (simp add: funpow_add)

lemma loop_window:
  assumes cur: "C = (step_set R ^^ mn) {pos}"
  shows "C \<union> {e. \<exists>j. 1 \<le> j \<and> j \<le> x \<and> e \<in> (step_set R ^^ j) C}
       = {e. \<exists>k. mn \<le> k \<and> k \<le> mn + x \<and> e \<in> (step_set R ^^ k) {pos}}"
    (is "?L = ?W")
proof (intro set_eqI iffI)
  fix e assume "e \<in> ?L"
  then consider "e \<in> C" | j where "1 \<le> j" "j \<le> x" "e \<in> (step_set R ^^ j) C" by blast
  then show "e \<in> ?W"
  proof cases
    case 1
    then have "mn \<le> mn \<and> mn \<le> mn + x \<and> e \<in> (step_set R ^^ mn) {pos}" using cur by simp
    then show ?thesis by blast
  next
    case 2
    then have "mn \<le> j + mn \<and> j + mn \<le> mn + x \<and> e \<in> (step_set R ^^ (j + mn)) {pos}"
      unfolding cur funpow_step_add by simp
    then show ?thesis by blast
  qed
next
  fix e assume "e \<in> ?W"
  then obtain k where k: "mn \<le> k" "k \<le> mn + x" "e \<in> (step_set R ^^ k) {pos}" by blast
  show "e \<in> ?L"
  proof (cases "k = mn")
    case True
    with k cur show ?thesis by simp
  next
    case False
    with k have "k = (k - mn) + mn" "1 \<le> k - mn" "k - mn \<le> x" by auto
    with k(3) have "1 \<le> k - mn \<and> k - mn \<le> x \<and> e \<in> (step_set R ^^ (k - mn)) C"
      unfolding cur funpow_step_add by simp
    then show ?thesis by blast
  qed
qed

lemma repetitions_Unbounded:
  assumes "\<And>p e. e \<in> R p \<Longrightarrow> forward len p e"
  shows "repetitions mn Unbounded R pos
       = {e. \<exists>k. mn \<le> k \<and> k \<le> mn + (len - pos) \<and> e \<in> (step_set R ^^ k) {pos}}"
    (is "?L = ?W")
proof (intro set_eqI iffI)
  fix e assume "e \<in> ?L"
  then obtain n where n: "mn \<le> n" "e \<in> (step_set R ^^ n) {pos}"
    by (auto simp: repetitions_def)
  from funpow_step_compress [where R = R and len = len, OF _ n(2) n(1)] assms
  show "e \<in> ?W" by (auto simp: forward_def)
next
  fix e assume "e \<in> ?W"
  then show "e \<in> ?L" by (auto simp: repetitions_def)
qed

lemma repetitions_Bounded:
  assumes "mn \<le> n"
  shows "repetitions mn (Bounded n) R pos
       = {e. \<exists>k. mn \<le> k \<and> k \<le> mn + (n - mn) \<and> e \<in> (step_set R ^^ k) {pos}}"
  using assms by (auto simp: repetitions_def)

lemma repetitions_empty:
  assumes "(step_set R ^^ mn) {pos} = {}"
  shows "repetitions mn mx R pos = {}"
proof -
  have "(step_set R ^^ k) {pos} = {}" if "mn \<le> k" for k
  proof -
    from that have "k = (k - mn) + mn" by simp
    then have "(step_set R ^^ k) {pos} = (step_set R ^^ (k - mn)) ((step_set R ^^ mn) {pos})"
      unfolding funpow_step_add by simp
    with assms show ?thesis by simp
  qed
  then show ?thesis by (auto simp: repetitions_def)
qed

lemma occursToRange_ordered:
  "occursToRange oc = (mn, Bounded n) \<Longrightarrow> mn \<le> n"
  by (cases oc) auto

subsection \<open>The memoized matcher computes the reachable end positions\<close>

definition memo_ok :: "jstring list \<Rightarrow> dtd_memo \<Rightarrow> bool" where
  "memo_ok children memo \<longleftrightarrow>
     (\<forall>node pos cached. memo (node, pos) = Some cached \<longrightarrow>
        set cached = reachable_ends node children pos)"

lemma memo_ok_empty [simp]: "memo_ok children Map.empty"
  by (simp add: memo_ok_def)

lemma memo_ok_update:
  "memo_ok children memo \<Longrightarrow> set out = reachable_ends node children pos \<Longrightarrow>
   memo_ok children (memo((node, pos) \<mapsto> out))"
  by (auto simp: memo_ok_def)

lemma match_dtd_sound:
  "memo_ok children memo \<Longrightarrow>
     set (fst (match_dtd node children pos memo)) = reachable_ends node children pos \<and>
     memo_ok children (snd (match_dtd node children pos memo))"
  "memo_ok children memo \<Longrightarrow>
     set (fst (matchOnce_dtd node children pos memo)) = reachable_once node children pos \<and>
     memo_ok children (snd (matchOnce_dtd node children pos memo))"
proof (induction node children pos memo and node children pos memo
       rule: match_dtd_matchOnce_dtd.induct)
  case (1 node children pos memo)
  let ?R = "\<lambda>p. reachable_once node children p"
  let ?once = "\<lambda>p m. matchOnce_dtd node children p m"
  show ?case
  proof (cases "memo (node, pos)")
    case (Some cached)
    with "1.prems" show ?thesis by (simp add: match_dtd.simps memo_ok_def)
  next
    case None
    obtain mn mx where r: "occursToRange (occurs_of node) = (mn, mx)"
      by (cases "occursToRange (occurs_of node)")
    have once: "sound (memo_ok children) ?once ?R"
      unfolding sound_def using "1.IH"(1) [OF None r [symmetric]] by blast
    have fw: "\<And>p e. e \<in> ?R p \<Longrightarrow> forward (length children) p e"
      by (rule reachable_forward(2))
    have ends: "reachable_ends node children pos = repetitions mn mx ?R pos"
      by (simp add: reachable_ends.simps r)
    obtain cur m1 where req: "required_loop ?once mn [pos] memo = (cur, m1)"
      by (cases "required_loop ?once mn [pos] memo")
    from required_loop_sound [OF once "1.prems" req]
    have m1: "memo_ok children m1"
      and cur: "case cur of None \<Rightarrow> (step_set ?R ^^ mn) {pos} = {}
                | Some c \<Rightarrow> set c = (step_set ?R ^^ mn) {pos}"
      by (simp_all split: option.splits)
    show ?thesis
    proof (cases cur)
      case None': None
      with cur have e: "reachable_ends node children pos = {}"
        unfolding ends by (simp add: repetitions_empty)
      have eq: "match_dtd node children pos memo = ([], m1((node, pos) \<mapsto> []))"
        by (simp add: match_dtd.simps None r req None')
      have ok: "memo_ok children (m1((node, pos) \<mapsto> []))"
        by (rule memo_ok_update [OF m1]) (simp add: e)
      show ?thesis unfolding eq fst_conv snd_conv
      proof (intro conjI)
        show "set [] = reachable_ends node children pos" using e by simp
      qed (rule ok)
    next
      case (Some current)
      with cur have current: "set current = (step_set ?R ^^ mn) {pos}" by simp
      define maxExtra where
        "maxExtra = (case mx of Unbounded \<Rightarrow> length children - pos | Bounded k \<Rightarrow> k - mn)"
      obtain results m2 where
        opt: "optional_loop ?once maxExtra current current m1 = (results, m2)"
        by (cases "optional_loop ?once maxExtra current current m1")
      from optional_loop_sound [OF once m1 opt]
      have m2: "memo_ok children m2"
        and results: "set results = set current \<union>
          {e. \<exists>j. 1 \<le> j \<and> j \<le> maxExtra \<and> e \<in> (step_set ?R ^^ j) (set current)}"
        by simp_all
      have window: "set results =
          {e. \<exists>k. mn \<le> k \<and> k \<le> mn + maxExtra \<and> e \<in> (step_set ?R ^^ k) {pos}}"
        unfolding results by (rule loop_window [OF current])
      have e: "set (sort results) = reachable_ends node children pos"
      proof (cases mx)
        case Unbounded
        then show ?thesis
          unfolding set_sort window ends maxExtra_def
          using repetitions_Unbounded [of ?R "length children" mn pos, OF fw] by simp
      next
        case (Bounded n)
        with r have "mn \<le> n" by (simp add: occursToRange_ordered)
        with Bounded show ?thesis
          unfolding set_sort window ends maxExtra_def
          using repetitions_Bounded [of mn n ?R pos] by simp
      qed
      have eq: "match_dtd node children pos memo
          = (sort results, m2((node, pos) \<mapsto> sort results))"
        using None r req Some opt
        by (simp add: match_dtd.simps maxExtra_def Let_def)
      have ok: "memo_ok children (m2((node, pos) \<mapsto> sort results))"
        by (rule memo_ok_update [OF m2 e])
      show ?thesis unfolding eq fst_conv snd_conv
        by (intro conjI) (rule e, rule ok)
    qed
  qed
next
  case (2 name oc children pos memo)
  then show ?case by simp
next
  case (3 oc children pos memo)
  then show ?case by simp
next
  case (4 items oc children pos memo)
  let ?f = "\<lambda>it p m. match_dtd it children p m"
  let ?R = "\<lambda>it p. reachable_ends it children p"
  have items: "\<And>it. it \<in> set items \<Longrightarrow> sound (memo_ok children) (?f it) (?R it)"
    unfolding sound_def using "4.IH" by blast
  obtain r m' where s: "seq_loop ?f items [pos] memo = (r, m')"
    by (cases "seq_loop ?f items [pos] memo")
  from seq_loop_sound [where f = ?f and R = ?R, OF items "4.prems" s]
  have "set r = fold (\<lambda>it P. step_set (?R it) P) items {pos}" "memo_ok children m'"
    by simp_all
  with s show ?case by (simp add: step_set_def)
next
  case (5 items oc children pos memo)
  let ?f = "\<lambda>it m. match_dtd it children pos m"
  let ?R = "\<lambda>it. reachable_ends it children pos"
  obtain r m' where s: "choice_loop ?f items [] memo = (r, m')"
    by (cases "choice_loop ?f items [] memo")
  from choice_loop_sound [where f = ?f and R = ?R and I = "memo_ok children",
      OF _ "5.prems" s] "5.IH"
  have "set r = (\<Union>it\<in>set items. ?R it)" "memo_ok children m'"
    by simp_all
  with s show ?case by simp
qed

lemma matchesDtdModel_reachable:
  "matchesDtdModel model children \<longleftrightarrow> length children \<in> reachable_ends model children 0"
  using match_dtd_sound(1) [of children Map.empty model 0] by (simp add: matchesDtdModel_def)


section \<open>C1: model matching\<close>

definition model_abc :: DtdContentModel where
  "model_abc = SEQ [NAME (js ''a'') One, NAME (js ''b'') Star, NAME (js ''c'') Opt] One"

lemma model_abc_accepts_a: "matchesDtdModel model_abc [js ''a'']"
  by code_simp

lemma model_abc_accepts_abbc:
  "matchesDtdModel model_abc [js ''a'', js ''b'', js ''b'', js ''c'']"
  by code_simp

lemma model_abc_rejects_ba: "\<not> matchesDtdModel model_abc [js ''b'', js ''a'']"
  by code_simp

lemma model_abc_rejects_acb:
  "\<not> matchesDtdModel model_abc [js ''a'', js ''c'', js ''b'']"
  by code_simp

text \<open>
  C1. For the content model \<open>(a,b*,c?)\<close> the memoized position-set matcher accepts the
  child sequences \<open>[a]\<close> and \<open>[a,b,b,c]\<close> and rejects \<open>[b,a]\<close> and \<open>[a,c,b]\<close>; and for
  every content model and every child sequence, the sequence is accepted exactly when
  its full length is among the end positions reachable from position 0 under the model.
\<close>

theorem dtd_model_matching:
  "matchesDtdModel model_abc [js ''a''] \<and>
   matchesDtdModel model_abc [js ''a'', js ''b'', js ''b'', js ''c''] \<and>
   \<not> matchesDtdModel model_abc [js ''b'', js ''a''] \<and>
   \<not> matchesDtdModel model_abc [js ''a'', js ''c'', js ''b''] \<and>
   (matchesDtdModel model children \<longleftrightarrow>
      length children \<in> reachable_ends model children 0)"
  using model_abc_accepts_a model_abc_accepts_abbc model_abc_rejects_ba
    model_abc_rejects_acb matchesDtdModel_reachable [of model children]
  by blast

lemma mixed_star_accepts_aba:
  "matchesDtdModel (CHOICE [NAME (js ''a'') One, NAME (js ''b'') Opt] Plus)
     [js ''a'', js ''b'', js ''a'']"
  by code_simp

theorem dtd_model_matching_witness:
  "length [js ''a'', js ''b'', js ''a''] \<in>
     reachable_ends (CHOICE [NAME (js ''a'') One, NAME (js ''b'') Opt] Plus)
       [js ''a'', js ''b'', js ''a''] 0"
  using dtd_model_matching [of "CHOICE [NAME (js ''a'') One, NAME (js ''b'') Opt] Plus"
      "[js ''a'', js ''b'', js ''a'']"] mixed_star_accepts_aba
  by blast

section \<open>C2: unordered matching of \<^verbatim>\<open>xs:all\<close>\<close>

lemma set_add_all_Nil_set: "set (set_add_all [] es) = set es"
proof -
  have "set (fold (\<lambda>e acc. set_add acc e) es xs) = set xs \<union> set es" for xs
    by (induction es arbitrary: xs) (auto simp: set_add_def)
  then show ?thesis by (simp add: set_add_all_def)
qed

lemma set_add_all_Nil_empty: "set_add_all [] es = [] \<longleftrightarrow> es = []"
  using set_add_all_Nil_set [of es] by (metis set_empty)

text \<open>An \<open>all\<close> group that occurs exactly once accepts what \<open>allSatisfied\<close> accepts.\<close>

lemma matchesParticle_all_once:
  "matchesParticle depth (P_all items (occ 1 1)) children xsd
     = Inr (allSatisfied items children)"
proof -
  let ?node = "P_all items (occ 1 1)"
  let ?ends = "filter (\<lambda>e. allSatisfied items (take (e - 0) (drop 0 children)))
                 [0 ..< Suc (length children)]"
  have mem: "length children \<in> set ?ends \<longleftrightarrow> allSatisfied items children" by auto
  have step: "step_positions_e (\<lambda>p m. matchOnce_xsd depth xsd ?node children p m) [0] []
                Map.empty = Inr (set_add_all [] ?ends, Map.empty)"
    by simp
  show ?thesis
  proof (cases "?ends = []")
    case True
    then have "\<not> allSatisfied items children" using mem by (metis empty_iff list.set(1))
    moreover have "match_xsd depth xsd ?node children 0 Map.empty
        = Inr ([], [(?node, 0) \<mapsto> []])"
      using True step set_add_all_Nil_empty [of ?ends]
      by (simp add: match_xsd.simps occ_def del: upt_Suc)
    ultimately show ?thesis by (simp add: matchesParticle_def)
  next
    case False
    then have ne: "set_add_all [] ?ends \<noteq> []" using set_add_all_Nil_empty [of ?ends] by simp
    have "match_xsd depth xsd ?node children 0 Map.empty
        = Inr (sort (set_add_all [] ?ends),
               [(?node, 0) \<mapsto> sort (set_add_all [] ?ends)])"
      using ne step by (simp add: match_xsd.simps occ_def Let_def del: upt_Suc)
    then show ?thesis using mem
      by (simp add: matchesParticle_def set_add_all_Nil_set del: upt_Suc)
  qed
qed

lemma count_two_names:
  assumes "a \<noteq> b" "set cs \<subseteq> {a, b}"
  shows "count_list cs a + count_list cs b = length cs"
  using assms(2) by (induction cs) (use assms(1) in auto)

lemma allSatisfied_ab:
  "allSatisfied [P_element (js ''a'') (occ 1 1), P_element (js ''b'') (occ 0 1)] cs
     \<longleftrightarrow> cs \<in> {[js ''a''], [js ''b'', js ''a''], [js ''a'', js ''b'']}"
  (is "?L \<longleftrightarrow> ?R")
proof
  assume ?R
  then show ?L by (auto simp: allSatisfied_def occ_def)
next
  assume L: ?L
  then have names: "set cs \<subseteq> {js ''a'', js ''b''}"
    and a: "count_list cs (js ''a'') = 1"
    and b: "count_list cs (js ''b'') \<le> 1"
    by (auto simp: allSatisfied_def occ_def list_all_iff split: if_splits)
  have "js ''a'' \<noteq> js ''b''" by simp
  from count_two_names [OF this names] a b have len: "length cs \<le> 2" by simp
  show ?R
  proof (cases cs)
    case Nil
    with a show ?thesis by simp
  next
    case (Cons x xs)
    note c1 = this
    show ?thesis
    proof (cases xs)
      case Nil
      with c1 a names show ?thesis by (auto split: if_splits)
    next
      case (Cons y ys)
      with c1 len have "ys = []" by simp
      with c1 Cons a b names show ?thesis by (auto split: if_splits)
    qed
  qed
qed


lemma items_in_bounds_counts:
  assumes "\<And>n. count_list cs n = count_list cs' n"
  shows "items_in_bounds items cs = items_in_bounds items cs'"
proof (induction items)
  case Nil
  show ?case by simp
next
  case (Cons it items)
  then show ?case by (cases it) (simp_all add: assms Let_def)
qed

lemma count_list_member: "n \<in> set cs \<longleftrightarrow> count_list cs n > 0"
  by (induction cs) auto

lemma allSatisfied_counts:
  assumes "\<And>n. count_list cs n = count_list cs' n"
  shows "allSatisfied items cs = allSatisfied items cs'"
proof -
  have s: "set cs = set cs'" using assms by (auto simp: count_list_member)
  have b: "items_in_bounds items cs = items_in_bounds items cs'"
    by (rule items_in_bounds_counts) (rule assms)
  show ?thesis by (simp only: allSatisfied_def list_all_iff s b)
qed

text \<open>
  C2. The particle \<open>all(element a {1,1}, element b {0,1})\<close>, occurring once, accepts
  exactly the full child sequences \<open>[a]\<close>, \<open>[b,a]\<close> and \<open>[a,b]\<close> and rejects \<open>[a,a]\<close>
  and \<open>[c]\<close>, whatever the index; and the verdict of an \<open>all\<close> group occurring once
  depends only on how often each name occurs among the children, not on their order.
\<close>

theorem xsd_all_matching:
  "matchesParticle depth all_ab children xsd
     = Inr (children \<in> {[js ''a''], [js ''b'', js ''a''], [js ''a'', js ''b'']}) \<and>
   matchesParticle depth all_ab [js ''a'', js ''a''] xsd = Inr False \<and>
   matchesParticle depth all_ab [js ''c''] xsd = Inr False \<and>
   ((\<forall>n. count_list cs n = count_list cs' n) \<longrightarrow>
      matchesParticle depth (P_all items (occ 1 1)) cs xsd
        = matchesParticle depth (P_all items (occ 1 1)) cs' xsd)"
proof -
  have "(\<forall>n. count_list cs n = count_list cs' n) \<longrightarrow>
      matchesParticle depth (P_all items (occ 1 1)) cs xsd
        = matchesParticle depth (P_all items (occ 1 1)) cs' xsd"
    unfolding matchesParticle_all_once using allSatisfied_counts [of cs cs' items] by blast
  then show ?thesis
    unfolding all_ab_def matchesParticle_all_once allSatisfied_ab by simp
qed

definition empty_index :: XsdIndex where
  "empty_index = \<lparr>elements = Map.empty, complexTypes = Map.empty, groups = Map.empty,
     attributeGroups = Map.empty, attributes = Map.empty, substitutionGroups = Map.empty,
     substitutionGroupFor = Map.empty\<rparr>"

theorem xsd_all_matching_witness:
  "matchesParticle 0 all_ab [js ''b'', js ''a''] empty_index = Inr True \<and>
   matchesParticle 0 (P_all [P_element (js ''a'') (occ 0 2), P_any (occ 1 1)] (occ 1 1))
       [js ''a'', js ''x''] empty_index
     = matchesParticle 0 (P_all [P_element (js ''a'') (occ 0 2), P_any (occ 1 1)] (occ 1 1))
         [js ''x'', js ''a''] empty_index"
proof -
  have c: "\<forall>n. count_list [js ''a'', js ''x''] n = count_list [js ''x'', js ''a''] n"
    by simp
  show ?thesis
    using xsd_all_matching [of 0 "[js ''b'', js ''a'']" empty_index
        "[js ''a'', js ''x'']" "[js ''x'', js ''a'']"
        "[P_element (js ''a'') (occ 0 2), P_any (occ 1 1)]"] c
    by simp
qed

section \<open>C3: substitution groups\<close>

lemma matchesElementName_iff:
  "matchesElementName expected actual xsd \<longleftrightarrow>
     expected = actual \<or>
     (\<exists>members. substitutionGroups xsd expected = Some members \<and> actual \<in> set members)"
  by (auto simp: matchesElementName_def split: option.splits)

text \<open>What the collecting pass records for a member is never removed by a later child.\<close>

definition recorded :: "Globals \<Rightarrow> jstring \<Rightarrow> jstring \<Rightarrow> bool" where
  "recorded g head member \<longleftrightarrow>
     (\<exists>ms. g_substitutionGroups g head = Some ms \<and> member \<in> set ms)"

text \<open>
  A top-level \<^verbatim>\<open><xs:element name="member" substitutionGroup="...:head"/>\<close>.
\<close>

definition declares_member :: "Node \<Rightarrow> jstring \<Rightarrow> jstring \<Rightarrow> bool" where
  "declares_member n head member \<longleftrightarrow>
     isElement n \<and> localName (el_name n) = js ''element'' \<and>
     truthy_attr n (js ''name'') = Some member \<and>
     (\<exists>sg. truthy_attr n (js ''substitutionGroup'') = Some sg \<and> localName sg = head) \<and>
     head \<noteq> []"

lemma collect_element_keeps:
  "recorded g head member \<Longrightarrow> recorded (collect_element n g) head member"
  by (auto simp: recorded_def collect_element_def Let_def str_add_def split: option.splits)

lemma collect_element_records:
  assumes "truthy_attr n (js ''name'') = Some member"
    and "truthy_attr n (js ''substitutionGroup'') = Some sg" "localName sg \<noteq> []"
  shows "recorded (collect_element n g) (localName sg) member"
  using assms
  by (auto simp: recorded_def collect_element_def Let_def str_add_def split: option.splits)

lemma collect_global_other:
  "localName (el_name n) \<noteq> js ''element'' \<or> \<not> isEl n [] \<Longrightarrow>
   g_substitutionGroups (collect_global n g) = g_substitutionGroups g"
  by (simp add: collect_global_def Let_def split: option.split)

lemma collect_global_element:
  "localName (el_name n) = js ''element'' \<Longrightarrow> isEl n [] \<Longrightarrow>
   collect_global n g = collect_element n g"
  by (simp add: collect_global_def Let_def)

lemma collect_global_keeps:
  assumes "recorded g head member"
  shows "recorded (collect_global n g) head member"
proof (cases "localName (el_name n) = js ''element'' \<and> isEl n []")
  case True
  then show ?thesis using assms by (simp add: collect_global_element collect_element_keeps)
next
  case False
  then have "g_substitutionGroups (collect_global n g) = g_substitutionGroups g"
    by (intro collect_global_other) blast
  with assms show ?thesis by (simp add: recorded_def)
qed

lemma collect_global_records:
  assumes "declares_member n head member"
  shows "recorded (collect_global n g) head member"
proof -
  from assms obtain sg where sg: "truthy_attr n (js ''substitutionGroup'') = Some sg"
    "localName sg = head" "head \<noteq> []" "truthy_attr n (js ''name'') = Some member"
    "localName (el_name n) = js ''element''" "isEl n []"
    unfolding declares_member_def isEl_def by blast
  from collect_element_records [OF sg(4) sg(1)] sg(2,3)
  have "recorded (collect_element n g) head member" by simp
  then show ?thesis by (simp only: collect_global_element [OF sg(5,6)])
qed

lemma fold_collect_keeps:
  "recorded g head member \<Longrightarrow> recorded (fold collect_global ns g) head member"
  by (induction ns arbitrary: g) (simp_all add: collect_global_keeps)

lemma fold_collect_records:
  "n \<in> set ns \<Longrightarrow> declares_member n head member \<Longrightarrow>
   recorded (fold collect_global ns g) head member"
proof (induction ns arbitrary: g)
  case Nil
  then show ?case by simp
next
  case (Cons a ns)
  show ?case
  proof (cases "a = n")
    case True
    with Cons.prems(2) have "recorded (collect_global a g) head member"
      by (simp add: collect_global_records)
    then show ?thesis by (simp add: fold_collect_keeps)
  next
    case False
    with Cons.prems(1) have "n \<in> set ns" by simp
    from Cons.IH [OF this Cons.prems(2)] show ?thesis by simp
  qed
qed


definition schema_xy :: Node where
  "schema_xy = Element (js ''xs:schema'') []
     [Element (js ''xs:element'') [(js ''name'', js ''x'')] [],
      Text (js '' ''),
      Element (js ''xs:element'')
        [(js ''name'', js ''y''), (js ''substitutionGroup'', js ''tns:x'')] []]"

definition index_xy :: XsdIndex where
  "index_xy = empty_index\<lparr>substitutionGroups := g_substitutionGroups (collectGlobals schema_xy)\<rparr>"

lemma index_xy_groups: "substitutionGroups index_xy (js ''x'') = Some [js ''y'']"
  by (simp add: index_xy_def schema_xy_def collectGlobals_def collect_global_def isEl_def
        collect_element_def localName_def truthy_attr_def attr_def no_globals_def
        str_add_def Let_def)

lemma schema_xy_declares:
  "declares_member (Element (js ''xs:element'')
        [(js ''name'', js ''y''), (js ''substitutionGroup'', js ''tns:x'')] []) (js ''x'') (js ''y'')"
  by (simp add: declares_member_def localName_def truthy_attr_def attr_def)



section \<open>C6: one aggregated error per validated document\<close>

subsection \<open>The DTD validator only ever appends to the error list\<close>

lemma validateAttrValue_append:
  "validateAttrValue decl v here errors = errors @ validateAttrValue decl v here []"
  by (cases "da_type decl"; cases "da_defaultDecl decl")
     (simp_all add: validateAttrValue_def)

lemma validate_attr_dtd_append:
  "validate_attr_dtd def here av errors = errors @ validate_attr_dtd def here av []"
  using validateAttrValue_append [of _ "snd av" here errors]
  by (simp add: validate_attr_dtd_def split: option.splits)

lemma fold_validate_attr_dtd_append:
  "fold (validate_attr_dtd def here) attrs errors
     = errors @ fold (validate_attr_dtd def here) attrs []"
proof (induction attrs arbitrary: errors)
  case Nil
  show ?case by simp
next
  case (Cons av attrs)
  have "fold (validate_attr_dtd def here) (av # attrs) errors
      = fold (validate_attr_dtd def here) attrs (validate_attr_dtd def here av errors)"
    by simp
  also have "\<dots> = validate_attr_dtd def here av errors
      @ fold (validate_attr_dtd def here) attrs []"
    by (rule Cons.IH)
  also have "\<dots> = errors @ validate_attr_dtd def here av []
      @ fold (validate_attr_dtd def here) attrs []"
    using validate_attr_dtd_append [of "def" here av errors] by simp
  also have "\<dots> = errors @ fold (validate_attr_dtd def here) (av # attrs) []"
    using Cons.IH [of "validate_attr_dtd def here av []"] by simp
  finally show ?case .
qed

lemma validateAttrs_dtd_append:
  "validateAttrs_dtd el def here errors = errors @ validateAttrs_dtd el def here []"
  using fold_validate_attr_dtd_append [of "def" here "el_attributes el" errors]
  by (simp add: validateAttrs_dtd_def Let_def)

lemma validateChildren_dtd_append:
  "validateChildren_dtd el def here errors = errors @ validateChildren_dtd el def here []"
proof (cases "de_content def")
  case (Content_model model)
  then show ?thesis
    by (cases "getMixedAllowedNames model") (simp_all add: validateChildren_dtd_def Let_def)
qed (simp_all add: validateChildren_dtd_def Let_def)

lemma visit_dtd_append:
  "visit_dtd el path expectedRoot dtd errors = errors @ visit_dtd el path expectedRoot dtd []"
proof -
  let ?here = "here_path path (localName (el_name el))"
  define r where "r = (if path = [] \<and> localName (el_name el) \<noteq> expectedRoot
                       then [(?here, root_msg expectedRoot)] else [])"
  have v: "visit_dtd el path expectedRoot dtd es =
      (case dtd_elements dtd (localName (el_name el)) of
         None \<Rightarrow> (es @ r) @
           [(?here, js ''Element <'' @ localName (el_name el) @ js ''> not declared in DTD'')]
       | Some d \<Rightarrow> validateChildren_dtd el d ?here (validateAttrs_dtd el d ?here (es @ r)))"
    for es
    by (cases "dtd_elements dtd (localName (el_name el))")
       (simp_all add: visit_dtd_def Let_def r_def)
  have c: "validateChildren_dtd el d ?here (validateAttrs_dtd el d ?here es)
      = es @ validateChildren_dtd el d ?here (validateAttrs_dtd el d ?here [])" for d es
    using validateChildren_dtd_append [of el d ?here "validateAttrs_dtd el d ?here es"]
      validateChildren_dtd_append [of el d ?here "validateAttrs_dtd el d ?here []"]
      validateAttrs_dtd_append [of el d ?here es]
    by simp
  show ?thesis
  proof (cases "dtd_elements dtd (localName (el_name el))")
    case None
    then show ?thesis unfolding v [of errors] v [of "[]"] by simp
  next
    case (Some d)
    then show ?thesis
      unfolding v [of errors] v [of "[]"] using c [of d "errors @ r"] c [of d r] by simp
  qed
qed

lemma fold_walk_append:
  assumes "\<And>k es. k \<in> set ks \<Longrightarrow> f k es = es @ f k []"
  shows "fold f ks errors = errors @ concat (map (\<lambda>k. f k []) ks)"
  using assms
proof (induction ks arbitrary: errors)
  case Nil
  show ?case by simp
next
  case (Cons k ks)
  have "fold f (k # ks) errors = fold f ks (f k errors)" by simp
  also have "\<dots> = f k errors @ concat (map (\<lambda>k. f k []) ks)"
    by (rule Cons.IH, rule Cons.prems) simp
  also have "f k errors = errors @ f k []"
    by (rule Cons.prems) simp
  finally show ?case by simp
qed

text \<open>
  The walk adds to the errors it was given the errors found at the element itself,
  then those of each child element in turn: nothing found is dropped and no violation
  stops the walk.
\<close>

lemma walk_dtd_append:
  "walk_dtd el path expectedRoot dtd errors = errors @ walk_dtd el path expectedRoot dtd []"
proof (induction el path expectedRoot dtd errors rule: walk_dtd.induct)
  case (1 el path expectedRoot dtd errors)
  let ?here = "here_path path (localName (el_name el))"
  let ?f = "\<lambda>k es. walk_dtd k ?here expectedRoot dtd es"
  have f: "\<And>k es. k \<in> set (childElements el) \<Longrightarrow> ?f k es = es @ ?f k []"
    using "1.IH" by blast
  have "walk_dtd el path expectedRoot dtd es
      = visit_dtd el path expectedRoot dtd es @ concat (map (\<lambda>k. ?f k []) (childElements el))"
    for es
    using fold_walk_append [of "childElements el" ?f, OF f]
    by (subst walk_dtd.simps) simp
  from this [of errors] this [of "[]"]
    visit_dtd_append [of el path expectedRoot dtd errors]
  show ?case by simp
qed

lemma walk_dtd_unfold:
  "walk_dtd el path expectedRoot dtd []
     = visit_dtd el path expectedRoot dtd [] @
       concat (map (\<lambda>k. walk_dtd k (here_path path (localName (el_name el))) expectedRoot dtd [])
                 (childElements el))"
  using fold_walk_append [of "childElements el"
      "\<lambda>k es. walk_dtd k (here_path path (localName (el_name el))) expectedRoot dtd es"
      "visit_dtd el path expectedRoot dtd []", OF walk_dtd_append]
  by (subst walk_dtd.simps) simp

lemma validateAgainstDtd_cases:
  "validateAgainstDtd root expectedRoot dtd =
     (if walk_dtd root [] expectedRoot dtd [] = [] then Inr ()
      else Inl (Error (js ''DTD validation failed:'' @ [0x0A] @
                  join [0x0A] (map error_line (walk_dtd root [] expectedRoot dtd [])))))"
  by (simp add: validateAgainstDtd_def error_lines_def Let_def)

subsection \<open>The XSD validator: the same, unless the call stack is exhausted\<close>

lemma step_positions_e_RangeError:
  assumes "\<And>p m e. once p m = Inl e \<Longrightarrow> e = RangeError"
  shows "step_positions_e once ps nxt m = Inl e \<Longrightarrow> e = RangeError"
  using assms
  by (induction ps arbitrary: nxt m) (auto split: sum.splits prod.splits)

lemma required_loop_e_RangeError:
  assumes "\<And>p m e. once p m = Inl e \<Longrightarrow> e = RangeError"
  shows "required_loop_e once k cur m = Inl e \<Longrightarrow> e = RangeError"
proof (induction k arbitrary: cur m)
  case 0
  then show ?case by simp
next
  case (Suc k)
  then show ?case
    using step_positions_e_RangeError [of once cur "[]" m e, OF assms]
    by (auto split: sum.splits prod.splits if_splits)
qed

lemma optional_loop_e_RangeError:
  assumes "\<And>p m e. once p m = Inl e \<Longrightarrow> e = RangeError"
  shows "optional_loop_e once k prev results m = Inl e \<Longrightarrow> e = RangeError"
proof (induction k arbitrary: prev results m)
  case 0
  then show ?case by simp
next
  case (Suc k)
  then show ?case
    using step_positions_e_RangeError [of once prev "[]" m e, OF assms]
    by (auto simp: Let_def split: sum.splits prod.splits if_splits)
qed

lemma seq_loop_e_RangeError:
  assumes "\<And>it p m e. it \<in> set items \<Longrightarrow> f it p m = Inl e \<Longrightarrow> e = RangeError"
  shows "seq_loop_e f items positions m = Inl e \<Longrightarrow> e = RangeError"
  using assms
proof (induction items arbitrary: positions m)
  case Nil
  then show ?case by simp
next
  case (Cons it items)
  have it: "\<And>p m e. f it p m = Inl e \<Longrightarrow> e = RangeError"
    using Cons.prems(2) by (metis list.set_intros(1))
  have its: "\<And>i p m e. i \<in> set items \<Longrightarrow> f i p m = Inl e \<Longrightarrow> e = RangeError"
    using Cons.prems(2) by (metis list.set_intros(2))
  show ?case
  proof (cases "step_positions_e (f it) positions [] m")
    case (Inl e')
    with Cons.prems(1) have "e' = e" by simp
    with Inl step_positions_e_RangeError [of "f it" positions "[]" m e, OF it]
    show ?thesis by simp
  next
    case (Inr r)
    obtain nxt m1 where r: "r = (nxt, m1)" by (cases r)
    show ?thesis
    proof (cases "nxt = []")
      case True
      with Inr r Cons.prems(1) show ?thesis by simp
    next
      case False
      with Inr r Cons.prems(1) have "seq_loop_e f items nxt m1 = Inl e" by simp
      from Cons.IH [OF this its] show ?thesis by simp
    qed
  qed
qed

lemma choice_loop_e_RangeError:
  assumes "\<forall>it \<in> set items. \<forall>m e. f it m = Inl e \<longrightarrow> e = RangeError"
  shows "choice_loop_e f items out m = Inl e \<Longrightarrow> e = RangeError"
  using assms
proof (induction items arbitrary: out m)
  case Nil
  then show ?case by simp
next
  case (Cons it items)
  show ?case
  proof (cases "f it m")
    case (Inl e')
    with Cons.prems show ?thesis by simp
  next
    case (Inr r)
    obtain es m1 where r: "r = (es, m1)" by (cases r)
    with Inr Cons.prems(1) have "choice_loop_e f items (set_add_all out es) m1 = Inl e"
      by simp
    from Cons.IH [OF this] Cons.prems(2) show ?thesis by simp
  qed
qed

lemma match_xsd_RangeError:
  "match_xsd depth xsd node children pos memo = Inl e \<Longrightarrow> e = RangeError"
  "matchOnce_xsd depth xsd node children pos memo = Inl e \<Longrightarrow> e = RangeError"
proof (induction depth xsd node children pos memo and depth xsd node children pos memo
       arbitrary: e and e rule: match_xsd_matchOnce_xsd.induct)
  case (1 depth xsd node children pos memo)
  let ?once = "\<lambda>p m. matchOnce_xsd depth xsd node children p m"
  show ?case
  proof (cases "memo (node, pos)")
    case (Some cached)
    with "1.prems" show ?thesis by (simp add: match_xsd.simps)
  next
    case None
    have once: "\<And>p m e. ?once p m = Inl e \<Longrightarrow> e = RangeError"
      using "1.IH"(1) [OF None refl refl] by blast
    show ?thesis
      using "1.prems" None required_loop_e_RangeError [of ?once _ _ _ e, OF once]
        optional_loop_e_RangeError [of ?once _ _ _ _ e, OF once]
      by (auto simp: match_xsd.simps Let_def split: sum.splits prod.splits option.splits)
  qed
next
  case (5 depth xsd ref oc children pos memo)
  then show ?case by (auto split: option.splits nat.splits)
next
  case (6 depth xsd items oc children pos memo)
  have "\<And>it p m e. it \<in> set items \<Longrightarrow>
      match_xsd depth xsd it children p m = Inl e \<Longrightarrow> e = RangeError"
    using "6.IH" by blast
  from seq_loop_e_RangeError
      [of items "\<lambda>it p m. match_xsd depth xsd it children p m" "[pos]" memo e, OF this]
    "6.prems"
  show ?case by simp
next
  case (7 depth xsd items oc children pos memo)
  have "\<forall>it \<in> set items. \<forall>m e.
      match_xsd depth xsd it children pos m = Inl e \<longrightarrow> e = RangeError"
    using "7.IH" by blast
  from choice_loop_e_RangeError
      [of items "\<lambda>it m. match_xsd depth xsd it children pos m" "[]" memo e, OF this]
    "7.prems"
  show ?case by simp
qed (auto split: if_splits)

lemma matchesParticle_RangeError:
  "matchesParticle depth p children xsd = Inl e \<Longrightarrow> e = RangeError"
  using match_xsd_RangeError(1) [of depth xsd p children 0 Map.empty e]
  by (auto simp: matchesParticle_def split: sum.splits prod.splits)

lemma requiredChildrenSatisfied_RangeError:
  "requiredChildrenSatisfied depth p counts xsd = Inl e \<Longrightarrow> e = RangeError"
  "all_required depth ps counts xsd = Inl e \<Longrightarrow> e = RangeError"
  "some_required depth ps counts xsd = Inl e \<Longrightarrow> e = RangeError"
proof (induction depth p counts xsd and depth ps counts xsd and depth ps counts xsd
       rule: requiredChildrenSatisfied_all_required_some_required.induct)
qed (auto split: if_splits option.splits nat.splits sum.splits bool.splits)

text \<open>
  The outcome of \<open>validateChildren\<close> does not depend on the errors collected so far:
  it fails with them or appends to them.
\<close>

lemma children_ok_RangeError:
  "children_ok depth content kidNames compatKidNames xsd = Inl e \<Longrightarrow> e = RangeError"
  using matchesParticle_RangeError [of depth content kidNames xsd e]
    matchesParticle_RangeError [of depth content compatKidNames xsd e]
  by (auto simp: children_ok_def split: sum.splits bool.splits if_splits)

lemma relaxed_ok_RangeError:
  "relaxed_ok depth elementName def compatKidNames xsd = Inl e \<Longrightarrow> e = RangeError"
  using requiredChildrenSatisfied_RangeError(1)
  by (auto simp: relaxed_ok_def split: if_splits)

lemma validateChildren_xsd_append:
  "validateChildren_xsd depth el elementName def here xsd errors =
     (case validateChildren_xsd depth el elementName def here xsd [] of
        Inl e \<Rightarrow> Inl e
      | Inr new \<Rightarrow> Inr (errors @ new))"
proof (cases "children_ok depth (xe_content def) (kidNames_of el)
                (filterCompatChildren (kidNames_of el)) xsd")
  case (Inl e)
  then show ?thesis by (simp add: validateChildren_xsd_def Let_def)
next
  case (Inr ok)
  show ?thesis
  proof (cases ok)
    case True
    with Inr show ?thesis by (simp add: validateChildren_xsd_def Let_def)
  next
    case False
    with Inr show ?thesis
      by (cases "relaxed_ok depth elementName def (filterCompatChildren (kidNames_of el)) xsd")
         (simp_all add: validateChildren_xsd_def Let_def split: bool.splits)
  qed
qed

lemma validateChildren_xsd_RangeError:
  assumes "validateChildren_xsd depth el elementName def here xsd errors = Inl e"
  shows "e = RangeError"
  using assms
    children_ok_RangeError [of depth "xe_content def" "kidNames_of el"
      "filterCompatChildren (kidNames_of el)" xsd e]
    relaxed_ok_RangeError [of depth elementName "def"
      "filterCompatChildren (kidNames_of el)" xsd e]
  by (auto simp: validateChildren_xsd_def Let_def split: sum.splits bool.splits)

lemma validateAttrs_xsd_append:
  "validateAttrs_xsd el elementName def here errors
     = errors @ validateAttrs_xsd el elementName def here []"
  by (simp add: validateAttrs_xsd_def Let_def)

lemma visit_xsd_append:
  "visit_xsd depth el path expectedRoot xsd errors =
     (case visit_xsd depth el path expectedRoot xsd [] of
        Inl e \<Rightarrow> Inl e
      | Inr new \<Rightarrow> Inr (errors @ new))"
proof -
  let ?name = "localName (el_name el)"
  let ?here = "here_path path ?name"
  define r where "r = (if path = [] \<and> ?name \<noteq> expectedRoot
                       then [(?here, root_msg expectedRoot)] else [])"
  have v: "visit_xsd depth el path expectedRoot xsd es =
      (case resolveElementDef ?name xsd of
         None \<Rightarrow> Inr ((es @ r) @
           [(?here, js ''Element <'' @ ?name @ js ''> not declared in XSD'')])
       | Some d \<Rightarrow> validateChildren_xsd depth el ?name d ?here xsd
                     (validateAttrs_xsd el ?name d ?here (es @ r)))"
    for es
    by (cases "resolveElementDef ?name xsd") (simp_all add: visit_xsd_def Let_def r_def)
  show ?thesis
  proof (cases "resolveElementDef ?name xsd")
    case None
    then show ?thesis unfolding v [of errors] v [of "[]"] by simp
  next
    case (Some d)
    let ?V = "validateChildren_xsd depth el ?name d ?here xsd"
    have a: "validateAttrs_xsd el ?name d ?here es
        = es @ validateAttrs_xsd el ?name d ?here []" for es
      by (rule validateAttrs_xsd_append)
    show ?thesis
    proof (cases "?V []")
      case (Inl e)
      have "?V x = Inl e" for x
        using validateChildren_xsd_append [of depth el ?name d ?here xsd x] Inl by simp
      with Some show ?thesis unfolding v [of errors] v [of "[]"] by simp
    next
      case (Inr n)
      have "?V x = Inr (x @ n)" for x
        using validateChildren_xsd_append [of depth el ?name d ?here xsd x] Inr by simp
      with Some show ?thesis
        unfolding v [of errors] v [of "[]"]
        using a [of "errors @ r"] a [of "[] @ r"] by simp
    qed
  qed
qed

lemma visit_xsd_RangeError:
  "visit_xsd depth el path expectedRoot xsd errors = Inl e \<Longrightarrow> e = RangeError"
  using validateChildren_xsd_RangeError
  by (auto simp: visit_xsd_def Let_def split: option.splits)

lemma walk_each_RangeError:
  assumes "\<forall>k \<in> set ks. \<forall>es e. f k es = Inl e \<longrightarrow> e = RangeError"
  shows "walk_each f ks errors = Inl e \<Longrightarrow> e = RangeError"
  using assms
proof (induction ks arbitrary: errors)
  case Nil
  then show ?case by simp
next
  case (Cons k ks)
  show ?case
  proof (cases "f k errors")
    case (Inl e')
    with Cons.prems show ?thesis by simp
  next
    case (Inr es)
    with Cons.prems(1) have "walk_each f ks es = Inl e" by simp
    from Cons.IH [OF this] Cons.prems(2) show ?thesis by simp
  qed
qed

lemma walk_xsd_RangeError:
  "walk_xsd depth el path expectedRoot xsd errors = Inl e \<Longrightarrow> e = RangeError"
proof (induction depth el path expectedRoot xsd errors arbitrary: e rule: walk_xsd.induct)
  case (1 depth el path expectedRoot xsd errors)
  let ?f = "\<lambda>k es. walk_xsd depth k (here_path path (localName (el_name el)))
               expectedRoot xsd es"
  from "1.prems" have p:
    "(case visit_xsd depth el path expectedRoot xsd errors of
        Inl e \<Rightarrow> Inl e
      | Inr errors' \<Rightarrow> walk_each ?f (childElements el) errors') = Inl e"
    by (subst (asm) walk_xsd.simps)
  show ?case
  proof (cases "visit_xsd depth el path expectedRoot xsd errors")
    case (Inl e')
    with p visit_xsd_RangeError [of depth el path expectedRoot xsd errors e']
    show ?thesis by simp
  next
    case (Inr es)
    have "\<forall>k \<in> set (childElements el). \<forall>es e. ?f k es = Inl e \<longrightarrow> e = RangeError"
      using "1.IH" [OF Inr] by blast
    from walk_each_RangeError [of "childElements el" ?f es e, OF this] p Inr
    show ?thesis by simp
  qed
qed

text \<open>
  The outcomes of the two validators: the DTD validator returns or throws the
  aggregated error; the XSD validator does the same unless the stack overflows.
\<close>

lemma validateAgainstXsd_cases:
  "validateAgainstXsd depth root expectedRoot xsd =
     (case walk_xsd depth root [] expectedRoot xsd [] of
        Inl e \<Rightarrow> Inl RangeError
      | Inr errors \<Rightarrow>
          if errors = [] then Inr ()
          else Inl (Error (js ''XSD validation failed:'' @ [0x0A] @
                      join [0x0A] (map error_line errors))))"
proof (cases "walk_xsd depth root [] expectedRoot xsd []")
  case (Inl e)
  with walk_xsd_RangeError [OF Inl] show ?thesis by (simp add: validateAgainstXsd_def)
next
  case (Inr errors)
  then show ?thesis by (simp add: validateAgainstXsd_def error_lines_def)
qed

subsection \<open>Two independent violations, one error\<close>

definition dtd_ab :: DtdIndex where
  "dtd_ab = \<lparr>dtd_elements =
     [js ''root'' \<mapsto> \<lparr>de_name = js ''root'',
          de_content = Content_model (SEQ [NAME (js ''a'') One, NAME (js ''b'') One] One),
          de_allowedChildren = Names [js ''a'', js ''b''], de_attrs = [],
          de_declaredAttrs = [], de_requiredAttrs = []\<rparr>,
      js ''a'' \<mapsto> \<lparr>de_name = js ''a'', de_content = Content_EMPTY,
          de_allowedChildren = EMPTY, de_attrs = [], de_declaredAttrs = [],
          de_requiredAttrs = []\<rparr>,
      js ''b'' \<mapsto> \<lparr>de_name = js ''b'', de_content = Content_EMPTY,
          de_allowedChildren = EMPTY, de_attrs = [], de_declaredAttrs = [],
          de_requiredAttrs = []\<rparr>]\<rparr>"

definition doc_two_violations :: Node where
  "doc_two_violations =
     Element (js ''root'') [] [Element (js ''a'') [(js ''foo'', js ''1'')] []]"

lemma dtd_two_violations:
  "validateAgainstDtd doc_two_violations (js ''root'') dtd_ab =
     Inl (Error (js ''DTD validation failed:'' @ [0x0A] @
        js ''- /root: Child elements do not match DTD content model: expected (a,b), got (a)''
        @ [0x0A] @ js ''- /root/a: Unknown attribute '' @ dq @ js ''foo'' @ dq @ js '' on <a>''))"
  by code_simp

definition xsd_ab :: XsdIndex where
  "xsd_ab = empty_index\<lparr>elements :=
     [js ''root'' \<mapsto> \<lparr>xe_name = js ''root'',
          xe_content = P_sequence [P_element (js ''a'') (occ 1 1),
                                   P_element (js ''b'') (occ 1 1)] (occ 1 1),
          xe_attributes = [], xe_mixed = False, xe_allowAnyAttribute = False,
          xe_allowedChildren = Names [js ''a'', js ''b'']\<rparr>,
      js ''a'' \<mapsto> \<lparr>xe_name = js ''a'', xe_content = P_empty (occ 1 1),
          xe_attributes = [], xe_mixed = False, xe_allowAnyAttribute = False,
          xe_allowedChildren = EMPTY\<rparr>,
      js ''b'' \<mapsto> \<lparr>xe_name = js ''b'', xe_content = P_empty (occ 1 1),
          xe_attributes = [], xe_mixed = False, xe_allowAnyAttribute = False,
          xe_allowedChildren = EMPTY\<rparr>]\<rparr>"

lemma xsd_two_violations:
  "validateAgainstXsd 0 doc_two_violations (js ''root'') xsd_ab =
     Inl (Error (js ''XSD validation failed:'' @ [0x0A] @
        js ''- /root: Child elements do not match XSD model: expected seq(<a>, <b>), got (a)''
        @ [0x0A] @ js ''- /root/a: Unknown attribute '' @ dq @ js ''foo'' @ dq @ js '' on <a>''))"
  by code_simp

subsection \<open>A circular group reference exhausts the call stack\<close>

text \<open>
  The index that \<^verbatim>\<open>buildXsdIndex\<close> builds from
  \<^verbatim>\<open><xs:group name="G"><xs:sequence><xs:group ref="G"/></xs:sequence></xs:group>\<close> and
  \<^verbatim>\<open><xs:element name="e"><xs:complexType><xs:group ref="G"/></xs:complexType></xs:element>\<close>:
  the group's particle is a sequence whose only item refers to the group again.
\<close>

definition group_G :: XsdParticle where
  "group_G = P_sequence [P_groupRef (js ''G'') (occ 1 1)] (occ 1 1)"

definition xsd_circular :: XsdIndex where
  "xsd_circular = empty_index\<lparr>
     elements := [js ''e'' \<mapsto> \<lparr>xe_name = js ''e'',
        xe_content = P_groupRef (js ''G'') (occ 1 1),
        xe_attributes = [], xe_mixed = False, xe_allowAnyAttribute = False,
        xe_allowedChildren = EMPTY\<rparr>],
     groups := [js ''G'' \<mapsto> group_G]\<rparr>"

definition doc_e :: Node where
  "doc_e = Element (js ''e'') [] []"

lemma xsd_circular_groups: "groups xsd_circular (js ''G'') = Some group_G"
  by (simp add: xsd_circular_def empty_index_def)

lemma match_group_G_overflows:
  "match_xsd depth xsd_circular group_G [] 0 Map.empty = Inl RangeError"
proof (induction depth)
  case 0
  have "match_xsd 0 xsd_circular (P_groupRef (js ''G'') (occ 1 1)) [] 0 Map.empty
      = Inl RangeError"
    using xsd_circular_groups by (simp add: match_xsd.simps occ_def)
  then show ?case by (simp add: match_xsd.simps [of _ _ "P_sequence _ _"] group_G_def occ_def)
next
  case (Suc depth)
  have "match_xsd (Suc depth) xsd_circular (P_groupRef (js ''G'') (occ 1 1)) [] 0 Map.empty
      = Inl RangeError"
    using Suc xsd_circular_groups
    by (simp add: match_xsd.simps [of _ _ "P_groupRef _ _"] occ_def)
  then show ?case by (simp add: match_xsd.simps [of _ _ "P_sequence _ _"] group_G_def occ_def)
qed

lemma match_ref_G_overflows:
  "match_xsd depth xsd_circular (P_groupRef (js ''G'') (occ 1 1)) [] 0 Map.empty
     = Inl RangeError"
proof (cases depth)
  case 0
  with xsd_circular_groups show ?thesis by (simp add: match_xsd.simps occ_def)
next
  case (Suc d)
  with match_group_G_overflows [of d] xsd_circular_groups show ?thesis
    by (simp add: match_xsd.simps [of _ _ "P_groupRef _ _"] occ_def)
qed

text \<open>
  Whatever room the call stack has, validating \<^verbatim>\<open><e/>\<close> against this index ends in the
  engine's \<^verbatim>\<open>RangeError\<close>, not in the aggregated validation error.
\<close>

theorem circular_group_exhausts_stack:
  "validateAgainstXsd depth doc_e (js ''e'') xsd_circular = Inl RangeError"
proof -
  have m: "matchesParticle depth (P_groupRef (js ''G'') (occ 1 1)) [] xsd_circular
      = Inl RangeError"
    using match_ref_G_overflows [of depth] by (simp add: matchesParticle_def)
  have r: "resolveElementDef (js ''e'') xsd_circular
      = Some \<lparr>xe_name = js ''e'', xe_content = P_groupRef (js ''G'') (occ 1 1),
          xe_attributes = [], xe_mixed = False, xe_allowAnyAttribute = False,
          xe_allowedChildren = EMPTY\<rparr>"
    by (simp add: resolveElementDef_def xsd_circular_def empty_index_def)
  have k: "kidNames_of doc_e = []"
    by (simp add: kidNames_of_def doc_e_def childElements_def)
  have "visit_xsd depth doc_e [] (js ''e'') xsd_circular [] = Inl RangeError"
    unfolding visit_xsd_def validateChildren_xsd_def children_ok_def
    using m r k by (simp add: doc_e_def localName_def Let_def)
  then show ?thesis
    by (simp add: validateAgainstXsd_def walk_xsd.simps [of _ doc_e])
qed

theorem circular_group_exhausts_stack_witness:
  "validateAgainstXsd 10000 doc_e (js ''e'') xsd_circular = Inl RangeError"
  by (rule circular_group_exhausts_stack)


section \<open>C7: a content model never mixes \<open>,\<close> and \<open>|\<close> at one level\<close>

subsection \<open>Every method moves the index forward\<close>

lemma mixed_loop_ge:
  "mixed_loop s items i = Inr (items', k) \<Longrightarrow> i \<le> k"
proof (induction s items i arbitrary: items' k rule: mixed_loop.induct)
  case (1 s items i)
  show ?case
  proof (cases "peek s (skipWs s i) \<noteq> Some (cu CHR ''|'')")
    case True
    with "1.prems" have "k = skipWs s i" by (simp add: mixed_loop.simps [of s items i] Let_def)
    then show ?thesis by (simp add: skipWs_ge)
  next
    case False
    obtain nm i2 where r: "readName s (skipWs s i + 1) = (nm, i2)"
      by (cases "readName s (skipWs s i + 1)")
    with False "1.prems" have nm: "nm \<noteq> []" "mixed_loop s (items @ [NAME nm One]) i2 = Inr (items', k)"
      by (auto simp: mixed_loop.simps [of s items i] Let_def split: if_splits)
    from "1.IH" [OF refl _ r [symmetric] nm(1) nm(2)] False have "i2 \<le> k" by simp
    moreover have "skipWs s i + 1 \<le> i2" using readName_ge [of "skipWs s i + 1" s] r by simp
    moreover have "i \<le> skipWs s i" by (rule skipWs_ge)
    ultimately show ?thesis by simp
  qed
qed

lemma expect_advances: "expect s i ch = Inr k \<Longrightarrow> k = i + 1"
  by (simp add: expect_def split: if_splits)

lemma parser_advances:
  "parseExpr depth s i = Inr (node, k) \<Longrightarrow> i < k"
  "expr_loop depth s left mode items i = Inr (node, k) \<Longrightarrow> i \<le> k"
  "parseTerm depth s i = Inr (node, k) \<Longrightarrow> i < k"
  "parseAtom depth s i = Inr (node, k) \<Longrightarrow> i < k"
proof (induction depth s i and depth s left mode items i and depth s i and depth s i
       arbitrary: node k and node k and node k and node k
       rule: parseExpr_expr_loop_parseTerm_parseAtom.induct)
  case (1 depth s i)
  from "1.prems" obtain left i1 where t: "parseTerm depth s i = Inr (left, i1)"
    and l: "expr_loop depth s left None [left] (skipWs s i1) = Inr (node, k)"
    by (auto simp: parseExpr.simps [of depth s i] split: sum.splits)
  from "1.IH"(1) [OF t] have "i < i1" .
  moreover from "1.IH"(2) [OF t refl l] have "skipWs s i1 \<le> k" .
  moreover have "i1 \<le> skipWs s i1" by (rule skipWs_ge)
  ultimately show ?case by simp
next
  case (2 depth s left mode items i)
  let ?x = "skipWs s i"
  have ge: "i \<le> ?x" by (rule skipWs_ge)
  show ?case
  proof (cases "peek s ?x \<noteq> Some (cu CHR ''|'') \<and> peek s ?x \<noteq> Some (cu CHR '','')")
    case True
    with "2.prems" have "k = ?x"
      by (auto simp: expr_loop.simps [of depth s left mode items i] Let_def
               split: option.splits Mode.splits)
    with ge show ?thesis by simp
  next
    case False
    with "2.prems" obtain right y where
      m: "\<not> (mode \<noteq> None \<and> mode \<noteq> Some (mode_of (s ! ?x)))"
      and t: "parseTerm depth s (?x + 1) = Inr (right, y)"
      and y: "\<not> y \<le> ?x"
      and l: "expr_loop depth s left (Some (mode_of (s ! ?x))) (items @ [right]) y = Inr (node, k)"
      by (auto simp: expr_loop.simps [of depth s left mode items i] Let_def
               split: sum.splits if_splits)
    from "2.IH"(2) [OF refl False refl m t refl y l] have "y \<le> k" .
    with y ge show ?thesis by simp
  qed
next
  case (3 depth s i)
  from "3.prems" obtain n i1 where a: "parseAtom depth s (skipWs s i) = Inr (n, i1)"
    and k: "skipWs s i1 \<le> k"
    by (auto simp: parseTerm.simps [of depth s i] Let_def split: sum.splits if_splits)
  from "3.IH" [OF a] have "skipWs s i < i1" .
  with k skipWs_ge [of i s] skipWs_ge [of i1 s] show ?case by simp
next
  case (4 depth s i)
  let ?i0 = "skipWs s i"
  have ge: "i \<le> ?i0" by (rule skipWs_ge)
  show ?case
  proof (cases "peek s ?i0 = Some (cu CHR ''('')")
    case paren: True
    let ?i1 = "skipWs s (?i0 + 1)"
    have ge1: "?i0 + 1 \<le> ?i1" by (rule skipWs_ge)
    show ?thesis
    proof (cases "take 7 (drop ?i1 s) = js ''#PCDATA''")
      case pc: True
      let ?i2 = "skipWs s (?i1 + 7)"
      have ge2: "?i1 + 7 \<le> ?i2" by (rule skipWs_ge)
      show ?thesis
      proof (cases "peek s ?i2 = Some (cu CHR '')'')")
        case True
        with "4.prems" paren pc have "k = ?i2 + 1"
          by (simp add: parseAtom.simps [of depth s i] Let_def)
        with ge ge1 ge2 show ?thesis by simp
      next
        case False
        with "4.prems" paren pc obtain items i3 where
          ml: "mixed_loop s [PCDATA One] ?i2 = Inr (items, i3)"
          and ex: "expect s (skipWs s i3) CHR '')'' = Inr k"
          by (auto simp: parseAtom.simps [of depth s i] Let_def split: sum.splits)
        from mixed_loop_ge [OF ml] have "?i2 \<le> i3" .
        moreover from expect_advances [OF ex] have "k = skipWs s i3 + 1" .
        moreover have "i3 \<le> skipWs s i3" by (rule skipWs_ge)
        ultimately show ?thesis using ge ge1 ge2 by simp
      qed
    next
      case npc: False
      with "4.prems" paren obtain d inner i2 where
        d: "depth = Suc d" and pe: "parseExpr d s ?i1 = Inr (inner, i2)"
        and ex: "expect s (skipWs s i2) CHR '')'' = Inr k"
        by (auto simp: parseAtom.simps [of depth s i] Let_def split: sum.splits nat.splits)
      from "4.IH" [OF refl paren refl npc d pe] have "?i1 < i2" .
      moreover from expect_advances [OF ex] have "k = skipWs s i2 + 1" .
      moreover have "i2 \<le> skipWs s i2" by (rule skipWs_ge)
      ultimately show ?thesis using ge ge1 by simp
    qed
  next
    case False
    obtain name i1 where r: "readName s ?i0 = (name, i1)" by (cases "readName s ?i0")
    with "4.prems" False have n: "name \<noteq> []" "k = i1"
      by (auto simp: parseAtom.simps [of depth s i] Let_def split: if_splits)
    from r n(1) have "skipWs s ?i0 < i1" by (auto simp: readName_def Let_def)
    with n(2) ge skipWs_ge [of ?i0 s] show ?thesis by simp
  qed
qed

text \<open>
  So the loop of \<open>parseExpr\<close> is the loop of the source: after an operator, a term is
  parsed and the loop continues behind it.
\<close>

lemma expr_loop_source:
  "expr_loop depth s left mode items i =
     (let i1 = skipWs s i in
      if peek s i1 \<noteq> Some (cu CHR ''|'') \<and> peek s i1 \<noteq> Some (cu CHR '','')
      then (case mode of
              None \<Rightarrow> Inr (left, i1)
            | Some M_CHOICE \<Rightarrow> Inr (CHOICE items One, i1)
            | Some M_SEQ \<Rightarrow> Inr (SEQ items One, i1))
      else
        let nextMode = mode_of (s ! i1) in
        if mode \<noteq> None \<and> mode \<noteq> Some nextMode then Inl (mixed_error i1)
        else (case parseTerm depth s (i1 + 1) of
                Inl e \<Rightarrow> Inl e
              | Inr (right, i2) \<Rightarrow>
                  expr_loop depth s left (Some nextMode) (items @ [right]) i2))"
proof -
  have "\<not> y \<le> skipWs s i" if "parseTerm depth s (skipWs s i + 1) = Inr (r, y)" for r y
    using parser_advances(3) [OF that] by simp
  then show ?thesis
    by (subst expr_loop.simps) (auto simp: Let_def split: sum.splits)
qed

subsection \<open>Mixing raises, and a successful loop read one operator only\<close>

definition is_operator :: "nat \<Rightarrow> bool" where
  "is_operator op \<longleftrightarrow> op = cu CHR ''|'' \<or> op = cu CHR '',''"

text \<open>
  \<open>chain depth s op i ts k\<close>: from index \<open>i\<close> the text continues with the terms \<open>ts\<close>,
  each preceded by the operator \<open>op\<close> and no other, and the token at \<open>k\<close> is not an
  operator.
\<close>

inductive chain :: "nat \<Rightarrow> jstring \<Rightarrow> nat \<Rightarrow> nat \<Rightarrow> DtdContentModel list \<Rightarrow> nat \<Rightarrow> bool"
  for depth :: nat and s :: jstring and op :: nat
where
  chain_end:
    "peek s (skipWs s i) \<noteq> Some (cu CHR ''|'') \<Longrightarrow> peek s (skipWs s i) \<noteq> Some (cu CHR '','')
     \<Longrightarrow> chain depth s op i [] (skipWs s i)"
| chain_step:
    "peek s (skipWs s i) = Some op \<Longrightarrow> parseTerm depth s (skipWs s i + 1) = Inr (t, j)
     \<Longrightarrow> chain depth s op j ts k \<Longrightarrow> chain depth s op i (t # ts) k"

definition node_of :: "nat \<Rightarrow> DtdContentModel list \<Rightarrow> DtdContentModel" where
  "node_of op items = (if op = cu CHR ''|'' then CHOICE items One else SEQ items One)"

lemma mode_of_operator:
  "is_operator op \<Longrightarrow> is_operator op' \<Longrightarrow> mode_of op = mode_of op' \<longleftrightarrow> op = op'"
  by (auto simp: is_operator_def mode_of_def)

lemma expr_loop_chain:
  "expr_loop depth s left mode items i = Inr (node, k) \<Longrightarrow>
     (mode = None \<and> node = left \<and> chain depth s op i [] k) \<or>
     (\<exists>op ts. is_operator op \<and> (mode = None \<or> mode = Some (mode_of op)) \<and>
              (mode = None \<longrightarrow> ts \<noteq> []) \<and>
              chain depth s op i ts k \<and> node = node_of op (items @ ts))"
proof (induction "length s - skipWs s i" arbitrary: mode items i rule: less_induct)
  case less
  let ?x = "skipWs s i"
  show ?case
  proof (cases "peek s ?x \<noteq> Some (cu CHR ''|'') \<and> peek s ?x \<noteq> Some (cu CHR '','')")
    case True
    then have c: "chain depth s op' i [] ?x" for op' by (auto intro: chain_end)
    from True less.prems have r: "k = ?x"
      "mode = None \<longrightarrow> node = left"
      "mode = Some M_CHOICE \<longrightarrow> node = CHOICE items One"
      "mode = Some M_SEQ \<longrightarrow> node = SEQ items One"
      by (auto simp: expr_loop_source [of depth s left mode items i] Let_def
               split: option.splits Mode.splits)
    show ?thesis
    proof (cases mode)
      case None
      with r c show ?thesis by simp
    next
      case (Some m)
      show ?thesis
      proof (cases m)
        case M_CHOICE
        with Some r c [of "cu CHR ''|''"] have
          "is_operator (cu CHR ''|'') \<and> mode = Some (mode_of (cu CHR ''|'')) \<and>
           chain depth s (cu CHR ''|'') i [] k \<and> node = node_of (cu CHR ''|'') (items @ [])"
          by (simp add: is_operator_def mode_of_def node_of_def)
        with Some show ?thesis by blast
      next
        case M_SEQ
        with Some r c [of "cu CHR '',''"] have
          "is_operator (cu CHR '','') \<and> mode = Some (mode_of (cu CHR '','')) \<and>
           chain depth s (cu CHR '','') i [] k \<and> node = node_of (cu CHR '','') (items @ [])"
          by (simp add: is_operator_def mode_of_def node_of_def)
        with Some show ?thesis by blast
      qed
    qed
  next
    case False
    then have lt: "?x < length s" and op: "peek s ?x = Some (s ! ?x)" "is_operator (s ! ?x)"
      by (auto simp: peek_def is_operator_def split: if_splits)
    let ?op = "s ! ?x"
    from False less.prems obtain right y where
      m: "mode = None \<or> mode = Some (mode_of ?op)"
      and t: "parseTerm depth s (?x + 1) = Inr (right, y)"
      and l: "expr_loop depth s left (Some (mode_of ?op)) (items @ [right]) y = Inr (node, k)"
      by (auto simp: expr_loop_source [of depth s left mode items i] Let_def
               split: sum.splits if_splits)
    from parser_advances(3) [OF t] have "?x < y" by simp
    with skipWs_ge [of y s] lt have "length s - skipWs s y < length s - ?x" by simp
    from less.hyps [OF this l] obtain op' ts where
      r: "is_operator op'" "mode_of ?op = mode_of op'" "chain depth s op' y ts k"
         "node = node_of op' ((items @ [right]) @ ts)"
      by auto
    from mode_of_operator [OF op(2) r(1)] r(2) have "op' = ?op" by simp
    with r op(1) t have "chain depth s ?op i (right # ts) k"
      by (auto intro: chain_step)
    with r(4) \<open>op' = ?op\<close> m op(2) have
      "is_operator ?op \<and> (mode = None \<or> mode = Some (mode_of ?op)) \<and>
       (mode = None \<longrightarrow> right # ts \<noteq> []) \<and>
       chain depth s ?op i (right # ts) k \<and> node = node_of ?op (items @ right # ts)"
      by simp
    then show ?thesis by blast
  qed
qed


lemma expr_loop_mixed:
  assumes "peek s (skipWs s i) = Some op" "is_operator op" "mode = Some m" "m \<noteq> mode_of op"
  shows "expr_loop depth s left mode items i = Inl (mixed_error (skipWs s i))"
proof -
  from assms(1) have "s ! skipWs s i = op" by (auto simp: peek_def split: if_splits)
  with assms show ?thesis
    by (subst expr_loop.simps) (auto simp: Let_def is_operator_def)
qed

lemma expr_loop_first_operator:
  assumes "peek s (skipWs s i) = Some op" "is_operator op"
    and "parseTerm depth s (skipWs s i + 1) = Inr (t, j)"
  shows "expr_loop depth s left None items i
       = expr_loop depth s left (Some (mode_of op)) (items @ [t]) j"
proof -
  from assms(1) have "s ! skipWs s i = op" by (auto simp: peek_def split: if_splits)
  with assms show ?thesis
    by (subst expr_loop_source) (auto simp: Let_def is_operator_def)
qed

lemma parseExpr_chain:
  assumes "parseExpr depth s i = Inr (node, k)"
  shows "\<exists>left i1. parseTerm depth s i = Inr (left, i1) \<and>
           ((node = left \<and> chain depth s (cu CHR '','') (skipWs s i1) [] k) \<or>
            (\<exists>op ts. is_operator op \<and> ts \<noteq> [] \<and> chain depth s op (skipWs s i1) ts k \<and>
                     node = node_of op (left # ts)))"
proof -
  from assms obtain left i1 where t: "parseTerm depth s i = Inr (left, i1)"
    and l: "expr_loop depth s left None [left] (skipWs s i1) = Inr (node, k)"
    by (auto simp: parseExpr.simps [of depth s i] split: sum.splits)
  from expr_loop_chain [OF l, of "cu CHR '',''"] t show ?thesis by auto
qed

lemma parse_mixed_example:
  "parseElementModel (Suc d) (js ''(a,b|c)'') = Inl (mixed_error 4)"
proof -
  have "parseElementModel (Suc d) (js ''(a,b|c)'') = Inl (mixed_error (Suc (Suc (Suc (Suc 0)))))"
    by (simp add: parseElementModel_def parse_def parseExpr.simps parseTerm.simps
          parseAtom.simps expr_loop.simps trim_def isJsSpace_def skipWs_def peek_def
          readName_def name_stop_def mode_of_def Let_def)
  then show ?thesis by (simp add: eval_nat_numeral)
qed



lemma witness_peek: "peek (js ''a,b|c'') (skipWs (js ''a,b|c'') 3) = Some (cu CHR ''|'')"
  by (simp add: peek_def skipWs_def isJsSpace_def)



section \<open>C9: children named \<^verbatim>\<open>include\<close> are ignorable\<close>

lemma filterCompatChildren_filter:
  "filterCompatChildren kidNames = filter (\<lambda>n. n \<noteq> js ''include'') kidNames"
proof -
  have "filter P xs = xs" if "length (filter P xs) = length xs" for P and xs :: "jstring list"
    using that by (metis filter_True length_filter_less less_irrefl_nat)
  from this [of "\<lambda>n. n \<noteq> js ''include''" kidNames]
  show ?thesis by (auto simp: filterCompatChildren_def Let_def)
qed

text \<open>
  C9. At every element, whatever its name, when the child names fail strict particle
  matching but the names other than \<open>include\<close> match the element's particle,
  \<open>validateChildren\<close> reports no content-model mismatch: it returns the errors it was
  given, with at most the character-data error added. The relaxed fallback (the set of
  relaxed element names, the allowed-children set and the required-children check) is
  not consulted.
\<close>

theorem include_children_ignored:
  "matchesParticle depth (xe_content def) (kidNames_of el) xsd = Inr False \<and>
   matchesParticle depth (xe_content def)
       (filter (\<lambda>n. n \<noteq> js ''include'') (kidNames_of el)) xsd = Inr True
   \<longrightarrow> validateChildren_xsd depth el elementName def here xsd errors
       = Inr (if nonWhitespaceText el \<noteq> None \<and> \<not> xe_mixed def
              then errors @ [(here, no_character_data_msg elementName)] else errors)"
proof
  assume a: "matchesParticle depth (xe_content def) (kidNames_of el) xsd = Inr False \<and>
   matchesParticle depth (xe_content def)
       (filter (\<lambda>n. n \<noteq> js ''include'') (kidNames_of el)) xsd = Inr True"
  then have ne: "filter (\<lambda>n. n \<noteq> js ''include'') (kidNames_of el) \<noteq> kidNames_of el"
    by auto
  show "validateChildren_xsd depth el elementName def here xsd errors
       = Inr (if nonWhitespaceText el \<noteq> None \<and> \<not> xe_mixed def
              then errors @ [(here, no_character_data_msg elementName)] else errors)"
    unfolding validateChildren_xsd_def children_ok_def filterCompatChildren_filter Let_def
    using a ne by simp
qed

definition para_def :: XsdElementDef where
  "para_def = \<lparr>xe_name = js ''para'',
     xe_content = P_sequence [P_element (js ''a'') (occ 1 1)] (occ 1 1),
     xe_attributes = [], xe_mixed = False, xe_allowAnyAttribute = False,
     xe_allowedChildren = Names [js ''a'']\<rparr>"

definition para_with_include :: Node where
  "para_with_include = Element (js ''para'') []
     [Element (js ''include'') [(js ''from'', js ''lib.topic'')] [],
      Element (js ''a'') [] []]"

lemma para_strict_fails:
  "matchesParticle 0 (xe_content para_def) [js ''include'', js ''a''] empty_index = Inr False"
  by code_simp

lemma para_filtered_matches:
  "matchesParticle 0 (xe_content para_def) [js ''a''] empty_index = Inr True"
  by code_simp

lemma para_kidNames:
  "kidNames_of para_with_include = [js ''include'', js ''a'']"
  by (simp add: kidNames_of_def para_with_include_def childElements_def localName_def)

theorem include_children_ignored_witness:
  "validateChildren_xsd 0 para_with_include (js ''para'') para_def (js ''/para'')
     empty_index [] = Inr []"
proof -
  have t: "nonWhitespaceText para_with_include = None"
    by (simp add: nonWhitespaceText_def para_with_include_def)
  have f: "filter (\<lambda>n. n \<noteq> js ''include'') [js ''include'', js ''a''] = [js ''a'']"
    by simp
  show ?thesis
    using include_children_ignored [of 0 para_def para_with_include empty_index
        "js ''para''" "js ''/para''" "[]"]
      para_strict_fails para_filtered_matches t
    unfolding para_kidNames f by simp
qed


section \<open>C10: attribute references inherit enumeration and fixed value, not use\<close>


definition lang_attr :: XsdAttrDef where
  "lang_attr = \<lparr>xa_use = js ''required'', xa_enum = Some [js ''en'', js ''de''],
     xa_fixed = Some (js ''en'')\<rparr>"



end
